theory Spec2Isabelle
  imports Complex_Main "HOL-Library.Word"
begin

section \<open>The Vamana graph index (include/vamana.h, src/vamana.cpp)\<close>

text \<open>
  The index is embedded by explicit state passing: every member function of class
  \<open>Vamana\<close> takes the index as a record and returns the updated record.

  \<^item> Ids are \<open>uint32_t\<close> and are natural numbers here; the one computation on an id,
    \<open>id + 1\<close> in \<open>VisitedSet::ensure_capacity\<close>, is written out modulo \<open>2^32\<close>.
    \<open>R\<close>, \<open>L\<close>, \<open>k\<close> and \<open>dims\<close> are \<open>size_t\<close> and only compared, so they are natural
    numbers too. The counters of the medoid tracker are \<open>uint64_t\<close> and are decremented
    without a check, so they are 64-bit words.
  \<^item> A \<open>float\<close> is modelled as a real number: sums, products and comparisons are exact.
    Rounding, infinities and NaN are outside the model.
    \<open>std::numeric_limits<float>::max()\<close> and \<open>lowest()\<close> are the real numbers they denote.
  \<^item> \<open>std::unordered_map\<close> is an association list with unique keys, read with \<open>map_of\<close>.
    Its iteration order is unspecified in C++; \<open>begin()\<close> is the first entry of the list.
  \<^item> \<open>std::priority_queue\<close> is a list kept in heap order: \<open>top()\<close> is the head, \<open>pop()\<close>
    the tail. C++ leaves the order among equal distances open; the list puts the
    element pushed last in front of its equals.
  \<^item> Undefined behaviour that the code of \<open>greedy_search\<close> can reach by itself
    (\<open>top()\<close> of an empty queue, a flag of the visited set beyond its array) and an
    exception of \<open>at()\<close> are the result \<open>None\<close>.
  \<^item> The visited set is the tag and the flag array of \<open>VisitedSet\<close>. The pool of visited
    sets is thread-local and not part of the index: every search takes a new set.
  \<^item> The search filter is a predicate on ids.
  \<^item> \<open>Vamana::insert\<close>, \<open>update\<close> and \<open>remove\<close> are \<open>vamana_insert\<close>, \<open>vamana_update\<close> and
    \<open>vamana_remove\<close>; the field \<open>id\<close> of a candidate is \<open>cid\<close> and a parameter \<open>id\<close> is
    \<open>ident\<close>, since the plain names are taken.
\<close>

subsection \<open>Data model\<close>

datatype distance_metric_t = L2 | INNER_PRODUCT

record vamana_candidate_t =
  cid :: nat
  distance :: real

record vamana_node_t =
  neighbors :: "nat list"
  vector :: "real list"

record StreamingMedoid =
  m_sum :: "real list"
  m_n :: "64 word"
  m_interval :: "64 word"
  m_countdown :: "64 word"

record vamana =
  R :: nat
  metric :: distance_metric_t
  dims :: nat
  node_map :: "(nat \<times> vamana_node_t) list"
  start_node :: nat
  medoid_tracker :: StreamingMedoid
  delete_list :: "nat set"

definition FLT_MAX :: real where
  "FLT_MAX = 340282346638528859811704183484516925440"

definition FLT_LOWEST :: real where
  "FLT_LOWEST = - 340282346638528859811704183484516925440"

text \<open>\<open>vamana_candidate_t(node, distance)\<close>\<close>

definition cand :: "nat \<Rightarrow> real \<Rightarrow> vamana_candidate_t" where
  "cand i d = \<lparr>cid = i, distance = d\<rparr>"

text \<open>\<open>StreamingMedoid(dims, recompute_every)\<close> and \<open>Vamana(R, metric, dims)\<close>\<close>

definition StreamingMedoid_init :: "nat \<Rightarrow> 64 word \<Rightarrow> StreamingMedoid" where
  "StreamingMedoid_init d recompute_every =
     (let iv = (if recompute_every \<noteq> 0 then recompute_every else 10000)
      in \<lparr>m_sum = replicate d 0, m_n = 0, m_interval = iv, m_countdown = iv\<rparr>)"

definition Vamana_init :: "nat \<Rightarrow> distance_metric_t \<Rightarrow> nat \<Rightarrow> vamana" where
  "Vamana_init r m d =
     \<lparr>R = r, metric = m, dims = d, node_map = [], start_node = 0,
      medoid_tracker = StreamingMedoid_init d 0, delete_list = {}\<rparr>"

subsection \<open>Node store (\<open>std::unordered_map<uint32_t, vamana_node_t>\<close>)\<close>

text \<open>\<open>operator[]=\<close> on an existing key keeps the entry's place; a new key goes to the end.\<close>

fun nm_update :: "nat \<Rightarrow> vamana_node_t \<Rightarrow> (nat \<times> vamana_node_t) list \<Rightarrow> (nat \<times> vamana_node_t) list" where
  "nm_update k v [] = [(k, v)]"
| "nm_update k v (p # ps) = (if fst p = k then (k, v) # ps else p # nm_update k v ps)"

text \<open>\<open>try_emplace(id, R, vec)\<close>: an existing entry is left as it is.\<close>

definition try_emplace :: "nat \<Rightarrow> real list \<Rightarrow> (nat \<times> vamana_node_t) list \<Rightarrow> (nat \<times> vamana_node_t) list" where
  "try_emplace k vec nm =
     (case map_of nm k of
        None \<Rightarrow> nm @ [(k, \<lparr>neighbors = [], vector = vec\<rparr>)]
      | Some n \<Rightarrow> nm)"

definition nm_erase :: "nat \<Rightarrow> (nat \<times> vamana_node_t) list \<Rightarrow> (nat \<times> vamana_node_t) list" where
  "nm_erase k nm = filter (\<lambda>p. fst p \<noteq> k) nm"

subsection \<open>Distance kernels (src/distance_functions.cpp)\<close>

definition l2_distance_plain :: "real list \<Rightarrow> real list \<Rightarrow> nat \<Rightarrow> real" where
  "l2_distance_plain a b dm =
     fold (\<lambda>i dist. dist + (a ! i - b ! i) * (a ! i - b ! i)) [0..<dm] 0"

text \<open>
  The AVX path keeps eight partial sums, one per lane, over the first
  \<open>dim - dim % 8\<close> entries, adds the lanes up, and finishes with the scalar tail.
\<close>

definition l2_lanes :: "real list \<Rightarrow> real list \<Rightarrow> nat \<Rightarrow> real list" where
  "l2_lanes a b limit =
     fold (\<lambda>blk acc. map (\<lambda>j. acc ! j + (a ! (8 * blk + j) - b ! (8 * blk + j)) * (a ! (8 * blk + j) - b ! (8 * blk + j))) [0..<8])
          [0..<limit div 8] (replicate 8 0)"

definition l2_distance :: "real list \<Rightarrow> real list \<Rightarrow> nat \<Rightarrow> real" where
  "l2_distance a b dm =
     (let limit = dm - dm mod 8;
          temp = l2_lanes a b limit;
          dist = (if limit > 0
                  then temp ! 0 + temp ! 1 + temp ! 2 + temp ! 3 + temp ! 4 + temp ! 5 + temp ! 6 + temp ! 7
                  else 0)
      in fold (\<lambda>i dist. dist + (a ! i - b ! i) * (a ! i - b ! i)) [limit..<dm] dist)"

definition ip_distance :: "real list \<Rightarrow> real list \<Rightarrow> nat \<Rightarrow> real" where
  "ip_distance a b dm = 1 - fold (\<lambda>i dist. dist + a ! i * b ! i) [0..<dm] 0"

fun compute :: "distance_metric_t \<Rightarrow> real list \<Rightarrow> real list \<Rightarrow> nat \<Rightarrow> real" where
  "compute L2 a b d = l2_distance a b d"
| "compute INNER_PRODUCT a b d = ip_distance a b d"

subsection \<open>Streaming medoid tracker\<close>

definition medoid_add :: "real list \<Rightarrow> StreamingMedoid \<Rightarrow> StreamingMedoid" where
  "medoid_add x m =
     m\<lparr>m_sum := map (\<lambda>i. m_sum m ! i + x ! i) [0..<length (m_sum m)],
       m_n := m_n m + 1, m_countdown := m_countdown m - 1\<rparr>"

definition medoid_sub :: "real list \<Rightarrow> StreamingMedoid \<Rightarrow> StreamingMedoid" where
  "medoid_sub x m =
     m\<lparr>m_sum := map (\<lambda>i. m_sum m ! i - x ! i) [0..<length (m_sum m)],
       m_n := m_n m - 1, m_countdown := m_countdown m - 1\<rparr>"

definition should_recompute :: "StreamingMedoid \<Rightarrow> bool" where
  "should_recompute m \<longleftrightarrow> m_countdown m = 0"

text \<open>\<open>centroid()\<close> returns the centroid and resets the countdown.\<close>

definition centroid :: "StreamingMedoid \<Rightarrow> real list \<times> StreamingMedoid" where
  "centroid m =
     (let scale = 1 / real (unat (m_n m))
      in (map (\<lambda>i. m_sum m ! i * scale) [0..<length (m_sum m)],
          m\<lparr>m_countdown := m_interval m\<rparr>))"

subsection \<open>Helpers of vamana.h and vamana.cpp\<close>

text \<open>\<open>dedup_vector\<close> keeps the first occurrence of every element.\<close>

fun dedup_from :: "nat set \<Rightarrow> nat list \<Rightarrow> nat list" where
  "dedup_from seen [] = []"
| "dedup_from seen (x # xs) =
     (if x \<in> seen then dedup_from seen xs else x # dedup_from (insert x seen) xs)"

definition dedup_vector :: "nat list \<Rightarrow> nat list" where
  "dedup_vector v = dedup_from {} v"

subsection \<open>Greedy beam search\<close>

text \<open>
  \<open>candidate_pq_t\<close> is a min-queue on the distance (comparator \<open>min_cmp\<close>), \<open>result_pq_t\<close>
  a max-queue (comparator \<open>max_cmp\<close>). Both are lists with \<open>top()\<close> at the head.
\<close>

definition push_min :: "vamana_candidate_t \<Rightarrow> vamana_candidate_t list \<Rightarrow> vamana_candidate_t list" where
  "push_min c q = insort_key distance c q"

definition push_max :: "vamana_candidate_t \<Rightarrow> vamana_candidate_t list \<Rightarrow> vamana_candidate_t list" where
  "push_max c q = insort_key (\<lambda>x. - distance x) c q"

text \<open>
  The visited set (include/vamana.h): one 32-bit flag per id and the current tag; an id
  is marked when its flag carries the tag. The index \<open>id + 1\<close> in \<open>ensure_capacity\<close> is
  computed in \<open>uint32_t\<close>, that is modulo \<open>2^32\<close>; \<open>resize\<close> is \<open>std::vector::resize(n, 0)\<close>.
  In \<open>mark\<close> the access \<open>_flags[id]\<close> beyond the end of the array is undefined behaviour,
  the result \<open>None\<close>.
\<close>

record VisitedSet =
  v_tag :: "32 word"
  v_flags :: "32 word list"

definition VisitedSet_new :: "nat \<Rightarrow> VisitedSet" where
  "VisitedSet_new n = \<lparr>v_tag = 1, v_flags = replicate n 0\<rparr>"

definition resize :: "nat \<Rightarrow> 32 word list \<Rightarrow> 32 word list" where
  "resize n flags = take n flags @ replicate (n - length flags) 0"

definition ensure_capacity :: "nat \<Rightarrow> VisitedSet \<Rightarrow> VisitedSet" where
  "ensure_capacity ident v =
     (if ident \<ge> length (v_flags v)
      then v\<lparr>v_flags := resize ((ident + 1) mod 4294967296) (v_flags v)\<rparr>
      else v)"

definition mark :: "VisitedSet \<Rightarrow> nat \<Rightarrow> (bool \<times> VisitedSet) option" where
  "mark v ident =
     (let v1 = ensure_capacity ident v
      in if length (v_flags v1) \<le> ident then None
         else if v_flags v1 ! ident = v_tag v1 then Some (False, v1)
         else Some (True, v1\<lparr>v_flags := (v_flags v1)[ident := v_tag v1]\<rparr>))"

text \<open>\<open>clear()\<close>: the next tag; on wrap-around the flags are reset and the tag is 1 again.\<close>

definition VisitedSet_clear :: "VisitedSet \<Rightarrow> VisitedSet" where
  "VisitedSet_clear v =
     (if v_tag v + 1 = 0 then \<lparr>v_tag = 1, v_flags = map (\<lambda>f. 0) (v_flags v)\<rparr>
      else v\<lparr>v_tag := v_tag v + 1\<rparr>)"

text \<open>The ids that are marked in a visited set.\<close>

definition marked :: "VisitedSet \<Rightarrow> nat set" where
  "marked v = {i. i < length (v_flags v) \<and> v_flags v ! i = v_tag v}"

text \<open>
  \<open>g_visited_pool.acquire(n)\<close> hands out either a new set of \<open>n\<close> flags or a pooled one
  after \<open>clear()\<close>; in both no id is marked. The pool is a thread-local object outside
  the index; the model takes the new set at every call.
\<close>

definition acquire :: "nat \<Rightarrow> VisitedSet" where
  "acquire n = VisitedSet_new n"

text \<open>
  The \<open>for\<close> loop over the neighbor ids of the popped candidate (lines 124-147):
  an id that \<open>visited->mark\<close> reports as new is pushed on the frontier when the node
  map has it. The prefetches have no effect on the state.
\<close>

fun visit_neighbors ::
  "vamana \<Rightarrow> real list \<Rightarrow> nat list \<Rightarrow> vamana_candidate_t list \<times> VisitedSet
     \<Rightarrow> (vamana_candidate_t list \<times> VisitedSet) option" where
  "visit_neighbors s query [] (candidates, visited) = Some (candidates, visited)"
| "visit_neighbors s query (i # ids) (candidates, visited) =
     (case mark visited i of
        None \<Rightarrow> None
      | Some (newly, visited') \<Rightarrow>
          if \<not> newly then visit_neighbors s query ids (candidates, visited')
          else (case map_of (node_map s) i of
                  None \<Rightarrow> visit_neighbors s query ids (candidates, visited')
                | Some nit \<Rightarrow>
                    visit_neighbors s query ids
                      (push_min (cand i (compute (metric s) (vector nit) query (dims s))) candidates,
                       visited')))"

text \<open>
  The acceptance step (lines 99-114) on the result queue and the pruning radius.
  With \<open>results.size() \<ge> L\<close> the condition reads \<open>results.top()\<close>; on an empty queue
  (only possible for \<open>L = 0\<close>) that is undefined behaviour, the result \<open>None\<close>.
\<close>

definition accept_candidate ::
  "vamana \<Rightarrow> nat \<Rightarrow> (nat \<Rightarrow> bool) option \<Rightarrow> vamana_candidate_t
     \<Rightarrow> vamana_candidate_t list \<Rightarrow> real \<Rightarrow> (vamana_candidate_t list \<times> real) option" where
  "accept_candidate s L filter_fn nn results max_distance =
     (if \<not> length results < L \<and> results = [] then None
      else if (length results < L \<or> distance nn < distance (hd results))
              \<and> cid nn \<notin> delete_list s
      then (let r1 = (case filter_fn of
                        None \<Rightarrow> push_max nn results
                      | Some f \<Rightarrow> if f (cid nn) then push_max nn results else results);
                r2 = (if length r1 > L then tl r1 else r1)
            in Some (r2, if length r2 = L then distance (hd r2) else max_distance))
      else Some (results, max_distance))"

text \<open>
  The \<open>while (!candidates.empty())\<close> loop (lines 75-148). The result is the final result
  queue, or \<open>None\<close> for undefined behaviour.
\<close>

function gs_loop ::
  "vamana \<Rightarrow> real list \<Rightarrow> nat \<Rightarrow> (nat \<Rightarrow> bool) option \<Rightarrow> vamana_candidate_t list
     \<Rightarrow> vamana_candidate_t list \<Rightarrow> VisitedSet \<Rightarrow> real \<Rightarrow> vamana_candidate_t list option" where
  "gs_loop s query L filter_fn [] results visited max_distance = Some results"
| "gs_loop s query L filter_fn (nn # rest) results visited max_distance =
     (if distance nn > max_distance then Some results
      else (case accept_candidate s L filter_fn nn results max_distance of
              None \<Rightarrow> None
            | Some (results', max_distance') \<Rightarrow>
                (case map_of (node_map s) (cid nn) of
                   None \<Rightarrow> gs_loop s query L filter_fn rest results' visited max_distance'
                 | Some nodes_it \<Rightarrow>
                     (case visit_neighbors s query (neighbors nodes_it) (rest, visited) of
                        None \<Rightarrow> None
                      | Some (candidates', visited') \<Rightarrow>
                          gs_loop s query L filter_fn candidates' results' visited' max_distance'))))"
  by pat_completeness auto
termination
proof (relation "measure (\<lambda>(s, query, L, filter_fn, candidates, results, visited, max_distance).
          card ((\<Union>p \<in> set (node_map s). set (neighbors (snd p))) - marked visited)
          + length candidates)",
       goal_cases)
  case 1
  show ?case by simp
next
  case 2
  show ?case by simp
next
  case (3 s query L filter_fn nn rest results visited max_distance x2 results' max_distance'
          nodes_it x2a candidates' visited')
  define G where "G = (\<Union>p \<in> set (node_map s). set (neighbors (snd p)))"
  have fin: "finite G" unfolding G_def by simp
  have grow: "marked v \<subseteq> marked (ensure_capacity i v)" if "i < length (v_flags (ensure_capacity i v))"
    for i v
  proof (cases "length (v_flags v) \<le> i")
    case False
    then show ?thesis by (simp add: ensure_capacity_def)
  next
    case True
    with that have "length (v_flags v) \<le> (i + 1) mod 4294967296"
      by (simp add: ensure_capacity_def resize_def)
    with True show ?thesis
      by (auto simp: marked_def ensure_capacity_def resize_def nth_append)
  qed
  have mark_mono: "marked v \<subseteq> marked v' \<and> (b \<longrightarrow> i \<in> marked v' \<and> i \<notin> marked v)"
    if "mark v i = Some (b, v')" for v i b v'
  proof -
    define v1 where "v1 = ensure_capacity i v"
    from that have len: "i < length (v_flags v1)"
      by (auto simp: mark_def v1_def Let_def split: if_splits)
    from grow [of i v] len have sub: "marked v \<subseteq> marked v1" by (simp add: v1_def)
    show ?thesis
    proof (cases "v_flags v1 ! i = v_tag v1")
      case True
      with that len have "b = False" "v' = v1"
        by (auto simp: mark_def v1_def Let_def split: if_splits)
      with sub show ?thesis by simp
    next
      case False
      with that len have b: "b = True" and v': "v' = v1\<lparr>v_flags := (v_flags v1)[i := v_tag v1]\<rparr>"
        by (auto simp: mark_def v1_def Let_def split: if_splits)
      from False len have "i \<notin> marked v1" by (simp add: marked_def)
      with sub have "i \<notin> marked v" by blast
      moreover have "i \<in> marked v'" using len by (simp add: v' marked_def)
      moreover have "marked v1 \<subseteq> marked v'"
        using len by (auto simp: v' marked_def nth_list_update)
      ultimately show ?thesis using sub by blast
    qed
  qed
  have step: "set ids \<subseteq> G \<Longrightarrow> visit_neighbors s query ids (cs, vs) = Some (cs', vs')
      \<Longrightarrow> card (G - marked vs') + length cs' \<le> card (G - marked vs) + length cs"
    for ids cs vs cs' vs'
  proof (induction ids arbitrary: cs vs)
    case Nil
    then show ?case by simp
  next
    case (Cons i ids)
    from Cons.prems(2) obtain b v1 where m: "mark vs i = Some (b, v1)"
      by (auto split: option.splits)
    note mm = mark_mono [OF m]
    show ?case
    proof (cases b)
      case False
      with Cons.prems m have "visit_neighbors s query ids (cs, v1) = Some (cs', vs')" by simp
      with Cons.IH [of cs v1] Cons.prems
      have "card (G - marked vs') + length cs' \<le> card (G - marked v1) + length cs" by simp
      moreover have "card (G - marked v1) \<le> card (G - marked vs)"
        using mm fin by (intro card_mono) auto
      ultimately show ?thesis by linarith
    next
      case True
      with mm Cons.prems(1) have iG: "i \<in> G - marked vs" "i \<in> marked v1" by auto
      have "card (G - marked v1) < card (G - marked vs)"
      proof (rule psubset_card_mono)
        show "finite (G - marked vs)" using fin by simp
        show "G - marked v1 \<subset> G - marked vs" using iG mm by blast
      qed
      then have dec: "card (G - marked v1) + 1 \<le> card (G - marked vs)" by simp
      show ?thesis
      proof (cases "map_of (node_map s) i")
        case None
        with Cons.prems True m
        have "visit_neighbors s query ids (cs, v1) = Some (cs', vs')" by simp
        with Cons.IH [of cs v1] Cons.prems
        have "card (G - marked vs') + length cs' \<le> card (G - marked v1) + length cs" by simp
        with dec show ?thesis by linarith
      next
        case (Some nit)
        with Cons.prems True m
        have "visit_neighbors s query ids
                (push_min (cand i (compute (metric s) (vector nit) query (dims s))) cs, v1)
              = Some (cs', vs')" by simp
        with Cons.IH [of _ v1] Cons.prems
        have "card (G - marked vs') + length cs' \<le> card (G - marked v1)
                + length (push_min (cand i (compute (metric s) (vector nit) query (dims s))) cs)"
          by simp
        with dec show ?thesis by (simp add: push_min_def)
      qed
    qed
  qed
  from 3 have "(cid nn, nodes_it) \<in> set (node_map s)" by (simp add: map_of_SomeD)
  then have sub: "set (neighbors nodes_it) \<subseteq> G" unfolding G_def by force
  from 3 have "visit_neighbors s query (neighbors nodes_it) (rest, visited) = Some (candidates', visited')"
    by simp
  from step [OF sub this] show ?case unfolding G_def by simp
qed

text \<open>
  \<open>greedy_search(start, query, k, L, search_result, filter)\<close>. \<open>out\<close> is the content of
  \<open>search_result.nearest_nodes\<close> on entry, the result its content on return: the drained
  result queue is appended, the whole vector reversed and cut to \<open>min(k, size)\<close>.
  A start id that is absent returns at once, leaving \<open>out\<close> as it was.
\<close>

definition greedy_search ::
  "vamana \<Rightarrow> nat \<Rightarrow> real list \<Rightarrow> nat \<Rightarrow> nat \<Rightarrow> vamana_candidate_t list
     \<Rightarrow> (nat \<Rightarrow> bool) option \<Rightarrow> vamana_candidate_t list option" where
  "greedy_search s start query k L out filter_fn =
     (case map_of (node_map s) start of
        None \<Rightarrow> Some out
      | Some start_node_it \<Rightarrow>
          (case mark (acquire (length (node_map s))) start of
             None \<Rightarrow> None
           | Some (newly, visited) \<Rightarrow>
               (case gs_loop s query L filter_fn
                       [cand start (compute (metric s) (vector start_node_it) query (dims s))]
                       [] visited FLT_MAX of
                  None \<Rightarrow> None
                | Some results \<Rightarrow> Some (take k (rev (out @ results))))))"

subsection \<open>Robust prune\<close>

text \<open>
  A candidate is marked as consumed or pruned by overwriting its distance with
  \<open>lowest()\<close>. \<open>prune_later\<close> is the body of the inner loop over \<open>j > i\<close> (lines 205-226)
  for one later candidate.
\<close>

definition prune_later :: "vamana \<Rightarrow> nat \<Rightarrow> real \<Rightarrow> real list \<Rightarrow> vamana_candidate_t \<Rightarrow> vamana_candidate_t" where
  "prune_later s p alpha neighbor_vec c =
     (if distance c = FLT_LOWEST then c
      else if cid c = p then c
      else (case map_of (node_map s) (cid c) of
              None \<Rightarrow> c
            | Some candidate_it \<Rightarrow>
                if alpha * compute (metric s) neighbor_vec (vector candidate_it) (dims s) \<le> distance c
                then c\<lparr>distance := FLT_LOWEST\<rparr> else c))"

text \<open>
  One run of the loop over \<open>i\<close> (lines 176-228), as a recursion over the candidates from
  position \<open>i\<close> on; the candidates before \<open>i\<close> are not read again in the run. The result
  is: whether the function returned from inside the loop (line 179), the neighbor list
  of \<open>p\<close>, and the candidate vector as the run leaves it. The loop reads only vectors
  and key membership from the node map, which the growing neighbor list of \<open>p\<close> does
  not change.
\<close>

fun prune_pass ::
  "vamana \<Rightarrow> nat \<Rightarrow> real \<Rightarrow> nat list \<Rightarrow> vamana_candidate_t list
     \<Rightarrow> bool \<times> nat list \<times> vamana_candidate_t list" where
  "prune_pass s p alpha pneighbors [] = (False, pneighbors, [])"
| "prune_pass s p alpha pneighbors (c # cs) =
     (if length pneighbors \<ge> R s then (True, pneighbors, c # cs)
      else if distance c = FLT_LOWEST then
        (case prune_pass s p alpha pneighbors cs of (ret, pn, cs') \<Rightarrow> (ret, pn, c # cs'))
      else if cid c = p then
        (case prune_pass s p alpha pneighbors cs of (ret, pn, cs') \<Rightarrow> (ret, pn, c # cs'))
      else (case map_of (node_map s) (cid c) of
              None \<Rightarrow>
                (case prune_pass s p alpha (pneighbors @ [cid c]) cs of
                   (ret, pn, cs') \<Rightarrow> (ret, pn, c\<lparr>distance := FLT_LOWEST\<rparr> # cs'))
            | Some neighbor_it \<Rightarrow>
                (case prune_pass s p alpha (pneighbors @ [cid c])
                        (map (prune_later s p alpha (vector neighbor_it)) cs) of
                   (ret, pn, cs') \<Rightarrow> (ret, pn, c\<lparr>distance := FLT_LOWEST\<rparr> # cs'))))"

definition set_neighbors :: "vamana \<Rightarrow> nat \<Rightarrow> vamana_node_t \<Rightarrow> nat list \<Rightarrow> vamana" where
  "set_neighbors s p node nbrs = s\<lparr>node_map := nm_update p (node\<lparr>neighbors := nbrs\<rparr>) (node_map s)\<rparr>"

text \<open>
  \<open>robust_prune(p, candidates, max_alpha)\<close>: the first run uses \<open>alpha = 1.0\<close>, the second
  \<open>max_alpha\<close>, on the candidate vector as the first run left it. The result is the index
  and the candidate vector (it is passed by reference).
\<close>

definition robust_prune ::
  "vamana \<Rightarrow> nat \<Rightarrow> vamana_candidate_t list \<Rightarrow> real \<Rightarrow> vamana \<times> vamana_candidate_t list" where
  "robust_prune s p candidates max_alpha =
     (case map_of (node_map s) p of
        None \<Rightarrow> (s, candidates)
      | Some nodes_it \<Rightarrow>
          (case prune_pass s p 1 [] candidates of
             (ret, pn, cs) \<Rightarrow>
               if ret then (set_neighbors s p nodes_it pn, cs)
               else (case prune_pass s p max_alpha pn cs of
                       (ret2, pn2, cs2) \<Rightarrow> (set_neighbors s p nodes_it pn2, cs2))))"

subsection \<open>Back-edge patch (update_neighbors)\<close>

text \<open>
  Lines 248-268: the candidate list for a full neighbor, built from its live neighbors
  and the new id, then \<open>std::sort\<close> with \<open>max_cmp\<close>. \<open>max_cmp()(a, b)\<close> is
  \<open>a.distance < b.distance\<close>, and \<open>std::sort\<close> puts \<open>a\<close> before \<open>b\<close> when the comparator
  holds, so the list is sorted by growing distance.
\<close>

definition ncandidates_of :: "vamana \<Rightarrow> nat \<Rightarrow> vamana_node_t \<Rightarrow> real list \<Rightarrow> vamana_candidate_t list" where
  "ncandidates_of s ident neighbor_node vec =
     sort_key distance
       (concat (map (\<lambda>n_neighbor.
                  if n_neighbor \<in> delete_list s then []
                  else (case map_of (node_map s) n_neighbor of
                          None \<Rightarrow> []
                        | Some n_it \<Rightarrow>
                            [cand n_neighbor
                               (compute (metric s) (vector n_it) (vector neighbor_node) (dims s))]))
               (neighbors neighbor_node))
        @ [cand ident (compute (metric s) (vector neighbor_node) vec (dims s))])"

text \<open>
  The loop over the neighbors of \<open>id\<close> (lines 236-281). The list it walks is the neighbor
  list of \<open>id\<close> on entry; the loop rewrites the lists of other nodes only, as long as
  \<open>id\<close> is not its own neighbor, which \<open>robust_prune\<close> has just ruled out at both call
  sites.
\<close>

fun update_neighbors_loop :: "nat \<Rightarrow> real list \<Rightarrow> real \<Rightarrow> nat list \<Rightarrow> vamana \<Rightarrow> vamana" where
  "update_neighbors_loop ident vec alpha [] s = s"
| "update_neighbors_loop ident vec alpha (neighbor_id # rest) s =
     (if neighbor_id \<in> delete_list s then update_neighbors_loop ident vec alpha rest s
      else (case map_of (node_map s) neighbor_id of
              None \<Rightarrow> update_neighbors_loop ident vec alpha rest s
            | Some neighbor_node \<Rightarrow>
                if length (neighbors neighbor_node) \<ge> R s
                then update_neighbors_loop ident vec alpha rest
                       (fst (robust_prune s neighbor_id (ncandidates_of s ident neighbor_node vec) alpha))
                else if ident \<in> set (neighbors neighbor_node)
                then update_neighbors_loop ident vec alpha rest s
                else update_neighbors_loop ident vec alpha rest
                       (set_neighbors s neighbor_id neighbor_node (neighbors neighbor_node @ [ident]))))"

text \<open>\<open>node_map.at(id)\<close> throws for an absent id: the result \<open>None\<close>.\<close>

definition update_neighbors :: "vamana \<Rightarrow> nat \<Rightarrow> real list \<Rightarrow> real \<Rightarrow> vamana option" where
  "update_neighbors s ident vec alpha =
     (case map_of (node_map s) ident of
        None \<Rightarrow> None
      | Some node \<Rightarrow> Some (update_neighbors_loop ident vec alpha (neighbors node) s))"

subsection \<open>Entry point, insert, update, batch_delete\<close>

definition try_medoid_compute :: "vamana \<Rightarrow> real list \<Rightarrow> bool \<Rightarrow> vamana option" where
  "try_medoid_compute s point force =
     (let s1 = s\<lparr>medoid_tracker := medoid_add point (medoid_tracker s)\<rparr>
      in if force \<or> should_recompute (medoid_tracker s1)
         then (case centroid (medoid_tracker s1) of
                 (c, m) \<Rightarrow>
                   (let s2 = s1\<lparr>medoid_tracker := m\<rparr>
                    in (case greedy_search s2 (start_node s2) c 1 64 [] None of
                          None \<Rightarrow> None
                        | Some res \<Rightarrow>
                            (case res of
                               [] \<Rightarrow> Some s2
                             | r # _ \<Rightarrow> Some (s2\<lparr>start_node := cid r\<rparr>)))))
         else Some s1)"

definition vamana_insert :: "vamana \<Rightarrow> nat \<Rightarrow> real list \<Rightarrow> nat \<Rightarrow> real \<Rightarrow> vamana option" where
  "vamana_insert s ident vec L alpha =
     (case try_medoid_compute (s\<lparr>node_map := try_emplace ident vec (node_map s)\<rparr>) vec False of
        None \<Rightarrow> None
      | Some s2 \<Rightarrow>
          (case greedy_search s2 (start_node s2) vec L L [] None of
             None \<Rightarrow> None
           | Some nearest_nodes \<Rightarrow>
               update_neighbors (fst (robust_prune s2 ident nearest_nodes alpha)) ident vec alpha))"

definition vamana_update :: "vamana \<Rightarrow> nat \<Rightarrow> real list \<Rightarrow> nat \<Rightarrow> real \<Rightarrow> vamana option" where
  "vamana_update s ident new_vec L alpha =
     (case map_of (node_map s) ident of
        None \<Rightarrow> Some s
      | Some it \<Rightarrow>
          if ident \<in> delete_list s then Some s
          else (let s1 = s\<lparr>node_map := nm_update ident (it\<lparr>vector := new_vec\<rparr>) (node_map s)\<rparr>
                in (case greedy_search s1 (start_node s1) new_vec L L [] None of
                      None \<Rightarrow> None
                    | Some nearest_nodes \<Rightarrow>
                        update_neighbors (fst (robust_prune s1 ident nearest_nodes alpha))
                          ident new_vec alpha)))"

definition batch_delete :: "vamana \<Rightarrow> vamana" where
  "batch_delete s =
     (if delete_list s = {} then s
      else s\<lparr>node_map := map (\<lambda>p. (fst p, (snd p)\<lparr>neighbors :=
                                 filter (\<lambda>x. x \<notin> delete_list s) (neighbors (snd p))\<rparr>))
                             (node_map s),
             delete_list := {}\<rparr>)"

subsection \<open>In-place remove\<close>

text \<open>
  The lambda \<open>select_top_c(anchor, out)\<close> (lines 362-383): the ids of the \<open>C = 3\<close> entries
  of \<open>sr\<close> nearest to the anchor, skipping the removed id and ids the node map lacks.
  \<open>node_map.at(anchor)\<close> throws for an absent anchor: the result \<open>None\<close>.
  \<open>std::partial_sort\<close> is the prefix of a stable sort.
\<close>

definition select_top_c :: "vamana \<Rightarrow> nat \<Rightarrow> vamana_candidate_t list \<Rightarrow> nat \<Rightarrow> nat list option" where
  "select_top_c s ident sr anchor =
     (case map_of (node_map s) anchor of
        None \<Rightarrow> None
      | Some a \<Rightarrow>
          (let buf = concat (map (\<lambda>c.
                         if cid c = ident then []
                         else (case map_of (node_map s) (cid c) of
                                 None \<Rightarrow> []
                               | Some cn \<Rightarrow>
                                   [(compute (metric s) (vector a) (vector cn) (dims s), cid c)]))
                       sr);
               take_n = min 3 (length buf)
           in Some (map snd (take take_n (sort_key fst buf)))))"

text \<open>
  The lambda \<open>patch_edges(owner, add)\<close> (lines 385-404). \<open>1.2f\<close> is the float
  \<open>5033165 / 4194304\<close>.
\<close>

definition patch_edges :: "vamana \<Rightarrow> nat \<Rightarrow> nat list \<Rightarrow> vamana option" where
  "patch_edges s owner add =
     (case map_of (node_map s) owner of
        None \<Rightarrow> None
      | Some owner_node \<Rightarrow>
          (let nbrs = dedup_vector (neighbors owner_node @ add);
               s1 = set_neighbors s owner owner_node nbrs
           in if length nbrs > R s
              then Some (fst (robust_prune s1 owner
                     (sort_key distance
                        (concat (map (\<lambda>v. case map_of (node_map s1) v of
                                             None \<Rightarrow> []
                                           | Some vn \<Rightarrow>
                                               [cand v (compute (metric s) (vector vn)
                                                          (vector owner_node) (dims s))])
                                  nbrs)))
                     (5033165 / 4194304)))
              else Some s1))"

text \<open>Step 3: the approximate in-neighbors (lines 409-419).\<close>

definition approx_in_of :: "vamana \<Rightarrow> nat \<Rightarrow> vamana_candidate_t list \<Rightarrow> nat list" where
  "approx_in_of s ident sr =
     map cid (filter (\<lambda>nn. case map_of (node_map s) (cid nn) of
                              None \<Rightarrow> False
                            | Some nit \<Rightarrow> ident \<in> set (neighbors nit)) sr)"

text \<open>Step 4: the loop over the approximate in-neighbors (lines 438-442).\<close>

fun patch_in_neighbors :: "nat \<Rightarrow> vamana_candidate_t list \<Rightarrow> nat list \<Rightarrow> vamana \<Rightarrow> vamana option" where
  "patch_in_neighbors ident sr [] s = Some s"
| "patch_in_neighbors ident sr (z # zs) s =
     (case map_of (node_map s) z of
        None \<Rightarrow> patch_in_neighbors ident sr zs s
      | Some zn \<Rightarrow>
          (case select_top_c s ident sr z of
             None \<Rightarrow> None
           | Some scratch \<Rightarrow>
               (case patch_edges s z scratch of
                  None \<Rightarrow> None
                | Some s' \<Rightarrow> patch_in_neighbors ident sr zs s')))"

text \<open>Step 5: the inner loop over \<open>scratch\<close> (lines 451-454) and the outer loop (lines 447-455).\<close>

fun patch_out_edges :: "nat \<Rightarrow> nat list \<Rightarrow> vamana \<Rightarrow> vamana option" where
  "patch_out_edges w [] s = Some s"
| "patch_out_edges w (y # ys) s =
     (if y = w \<or> map_of (node_map s) y = None then patch_out_edges w ys s
      else (case patch_edges s y [w] of
              None \<Rightarrow> None
            | Some s' \<Rightarrow> patch_out_edges w ys s'))"

fun patch_out_neighbors :: "nat \<Rightarrow> vamana_candidate_t list \<Rightarrow> nat list \<Rightarrow> vamana \<Rightarrow> vamana option" where
  "patch_out_neighbors ident sr [] s = Some s"
| "patch_out_neighbors ident sr (w # ws) s =
     (case map_of (node_map s) w of
        None \<Rightarrow> patch_out_neighbors ident sr ws s
      | Some wn \<Rightarrow>
          (case select_top_c s ident sr w of
             None \<Rightarrow> None
           | Some scratch \<Rightarrow>
               if scratch = [] then patch_out_neighbors ident sr ws s
               else (case patch_out_edges w scratch s of
                       None \<Rightarrow> None
                     | Some s' \<Rightarrow> patch_out_neighbors ident sr ws s')))"

text \<open>
  The book-keeping shared by the fast exit (lines 423-425) and step 6 (lines 460-462).
\<close>

definition erase_node :: "vamana \<Rightarrow> nat \<Rightarrow> real list \<Rightarrow> vamana" where
  "erase_node s ident vec =
     s\<lparr>medoid_tracker := medoid_sub vec (medoid_tracker s),
       delete_list := insert ident (delete_list s),
       node_map := nm_erase ident (node_map s)\<rparr>"

text \<open>
  The end of the fast exit (lines 426-429): an entry point that was the removed id moves
  to \<open>node_map.begin()\<close> when the map is not empty.
\<close>

definition restart_at_begin :: "vamana \<Rightarrow> nat \<Rightarrow> vamana" where
  "restart_at_begin s ident =
     (if start_node s = ident
      then (case node_map s of
              [] \<Rightarrow> s
            | b # _ \<Rightarrow> s\<lparr>start_node := fst b\<rparr>)
      else s)"

text \<open>
  Step 7 (lines 465-476): an entry point that was the removed id moves to the node
  nearest to the centroid, found by a search from \<open>node_map.begin()\<close>, or to
  \<open>node_map.begin()\<close> itself when the search finds nothing.
\<close>

definition repair_start_node :: "vamana \<Rightarrow> nat \<Rightarrow> vamana option" where
  "repair_start_node s ident =
     (if start_node s = ident
      then (case node_map s of
              [] \<Rightarrow> Some s
            | b # _ \<Rightarrow>
                (case centroid (medoid_tracker s) of
                   (c, m) \<Rightarrow>
                     (case greedy_search (s\<lparr>medoid_tracker := m\<rparr>) (fst b) c 1 64 [] None of
                        None \<Rightarrow> None
                      | Some medoid_res \<Rightarrow>
                          (case medoid_res of
                             [] \<Rightarrow> Some (s\<lparr>medoid_tracker := m, start_node := fst b\<rparr>)
                           | r # _ \<Rightarrow> Some (s\<lparr>medoid_tracker := m, start_node := cid r\<rparr>)))))
      else Some s)"

text \<open>
  \<open>remove(id)\<close>. The iterator \<open>it\<close> stays valid until the erase, so reading through it is
  a lookup in the current node map; the lookup cannot fail, and the branch for a
  failing one is \<open>None\<close>.
\<close>

definition vamana_remove :: "vamana \<Rightarrow> nat \<Rightarrow> vamana option" where
  "vamana_remove s ident =
     (case map_of (node_map s) ident of
        None \<Rightarrow> Some s
      | Some it \<Rightarrow>
          (case greedy_search s (start_node s) (vector it) 50 128 [] None of
             None \<Rightarrow> None
           | Some sr \<Rightarrow>
               if approx_in_of s ident sr = [] \<and> neighbors it = []
               then Some (restart_at_begin (erase_node s ident (vector it)) ident)
               else (case patch_in_neighbors ident sr (approx_in_of s ident sr) s of
                       None \<Rightarrow> None
                     | Some s4 \<Rightarrow>
                         (case map_of (node_map s4) ident of
                            None \<Rightarrow> None
                          | Some it4 \<Rightarrow>
                              (case patch_out_neighbors ident sr (neighbors it4) s4 of
                                 None \<Rightarrow> None
                               | Some s5 \<Rightarrow>
                                   (case map_of (node_map s5) ident of
                                      None \<Rightarrow> None
                                    | Some it5 \<Rightarrow>
                                        repair_start_node (erase_node s5 ident (vector it5)) ident))))))"

subsection \<open>Accessors\<close>

definition get_node :: "vamana \<Rightarrow> nat \<Rightarrow> vamana_node_t" where
  "get_node s node_id =
     (if node_id \<in> delete_list s then \<lparr>neighbors = [], vector = []\<rparr>
      else (case map_of (node_map s) node_id of
              None \<Rightarrow> \<lparr>neighbors = [], vector = []\<rparr>
            | Some n \<Rightarrow> n))"

definition get_size :: "vamana \<Rightarrow> nat" where
  "get_size s = length (node_map s)"

subsection \<open>validate_graph\<close>

text \<open>
  The inner loop of \<open>validate_graph\<close> over one neighbor list: \<open>unique\<close> is the set
  \<open>unique_neighbors\<close>; the result is \<open>False\<close> where the code returns false.
\<close>

fun validate_node :: "nat \<Rightarrow> nat set \<Rightarrow> nat list \<Rightarrow> bool" where
  "validate_node r unique [] = True"
| "validate_node r unique (x # xs) =
     (if x \<in> unique \<or> card unique > r then False
      else validate_node r (insert x unique) xs)"

definition validate_graph :: "vamana \<Rightarrow> bool" where
  "validate_graph s = list_all (\<lambda>p. validate_node (R s) {} (neighbors (snd p))) (node_map s)"

subsection \<open>Example indexes\<close>

text \<open>
  A one-dimensional index with \<open>R = 4\<close> under the L2 metric after \<open>insert(0, (0))\<close>, and
  after \<open>insert(1, (1))\<close> on top of it.
\<close>

definition ex_one_node :: vamana where
  "ex_one_node =
     \<lparr>R = 4, metric = L2, dims = 1,
      node_map = [(0, \<lparr>neighbors = [], vector = [0]\<rparr>)],
      start_node = 0,
      medoid_tracker = \<lparr>m_sum = [0], m_n = 1, m_interval = 10000, m_countdown = 9999\<rparr>,
      delete_list = {}\<rparr>"

definition ex_two_nodes :: vamana where
  "ex_two_nodes =
     \<lparr>R = 4, metric = L2, dims = 1,
      node_map = [(0, \<lparr>neighbors = [1], vector = [0]\<rparr>), (1, \<lparr>neighbors = [0], vector = [1]\<rparr>)],
      start_node = 0,
      medoid_tracker = \<lparr>m_sum = [1], m_n = 2, m_interval = 10000, m_countdown = 9998\<rparr>,
      delete_list = {}\<rparr>"

text \<open>The index \<open>ex_two_nodes\<close> after \<open>remove(1)\<close>.\<close>

definition ex_after_remove :: vamana where
  "ex_after_remove =
     \<lparr>R = 4, metric = L2, dims = 1,
      node_map = [(0, \<lparr>neighbors = [1, 0], vector = [0]\<rparr>)],
      start_node = 0,
      medoid_tracker = \<lparr>m_sum = [0], m_n = 1, m_interval = 10000, m_countdown = 9997\<rparr>,
      delete_list = {1}\<rparr>"

text \<open>An index with \<open>R = 1\<close> in which node 0 has two distinct neighbors.\<close>

definition ex_overfull :: vamana where
  "ex_overfull =
     \<lparr>R = 1, metric = L2, dims = 1,
      node_map = [(0, \<lparr>neighbors = [1, 2], vector = [0]\<rparr>),
                  (1, \<lparr>neighbors = [0], vector = [1]\<rparr>),
                  (2, \<lparr>neighbors = [0], vector = [2]\<rparr>)],
      start_node = 0,
      medoid_tracker = \<lparr>m_sum = [3], m_n = 3, m_interval = 10000, m_countdown = 9997\<rparr>,
      delete_list = {}\<rparr>"

text \<open>The neighbor list of a live node, empty for an absent id.\<close>

definition neighbors_of :: "vamana \<Rightarrow> nat \<Rightarrow> nat list" where
  "neighbors_of s u = (case map_of (node_map s) u of None \<Rightarrow> [] | Some n \<Rightarrow> neighbors n)"

text \<open>
  A candidate is well-formed for a query when its id is in the node map and its
  distance is the metric's distance from the stored vector to the query. A result is
  admissible when its id is not tombstoned and the filter, if any, accepts it.
\<close>

definition cand_ok :: "vamana \<Rightarrow> real list \<Rightarrow> vamana_candidate_t \<Rightarrow> bool" where
  "cand_ok s query c =
     (case map_of (node_map s) (cid c) of
        None \<Rightarrow> False
      | Some n \<Rightarrow> distance c = compute (metric s) (vector n) query (dims s))"

definition result_ok :: "vamana \<Rightarrow> (nat \<Rightarrow> bool) option \<Rightarrow> vamana_candidate_t \<Rightarrow> bool" where
  "result_ok s filter_fn c =
     (cid c \<notin> delete_list s \<and> (case filter_fn of None \<Rightarrow> True | Some f \<Rightarrow> f (cid c)))"

text \<open>
  Every id of the index, key or neighbor, is below \<open>2^32 - 1\<close>, the one id at which
  \<open>id + 1\<close> wraps to 0.
\<close>

definition ids_in_range :: "vamana \<Rightarrow> bool" where
  "ids_in_range s \<longleftrightarrow>
     (\<forall>p \<in> set (node_map s).
        fst p < 4294967295 \<and> (\<forall>v \<in> set (neighbors (snd p)). v < 4294967295))"

text \<open>
  A visited set as the code keeps it: the tag is not 0 and no flag is beyond the tag.
\<close>

definition visited_ok :: "VisitedSet \<Rightarrow> bool" where
  "visited_ok v \<longleftrightarrow> v_tag v \<noteq> 0 \<and> list_all (\<lambda>f. f \<le> v_tag v) (v_flags v)"

text \<open>The degree bound: no neighbor list in the node map is longer than \<open>R\<close>.\<close>

definition degree_ok :: "vamana \<Rightarrow> bool" where
  "degree_ok s \<longleftrightarrow> (\<forall>p \<in> set (node_map s). length (neighbors (snd p)) \<le> R s)"

text \<open>The indexes that the public operations build from an empty one.\<close>

inductive reachable :: "vamana \<Rightarrow> bool" where
  init: "reachable (Vamana_init r m d)"
| insert: "reachable s \<Longrightarrow> vamana_insert s ident vec L alpha = Some s' \<Longrightarrow> reachable s'"
| update: "reachable s \<Longrightarrow> vamana_update s ident vec L alpha = Some s' \<Longrightarrow> reachable s'"
| remove: "reachable s \<Longrightarrow> vamana_remove s ident = Some s' \<Longrightarrow> reachable s'"
| batch: "reachable s \<Longrightarrow> reachable (batch_delete s)"

text \<open>
  An index with \<open>R = 1\<close> on the line: node 0 at 0, node 2 at 3 and, inserted last,
  node 1 at 1, as \<open>insert(1, (1))\<close> has it after its call of \<open>robust_prune\<close>. The same
  index with \<open>R = 3\<close>.
\<close>

definition ex_line :: vamana where
  "ex_line =
     \<lparr>R = 1, metric = L2, dims = 1,
      node_map = [(0, \<lparr>neighbors = [2], vector = [0]\<rparr>),
                  (2, \<lparr>neighbors = [0], vector = [3]\<rparr>),
                  (1, \<lparr>neighbors = [0], vector = [1]\<rparr>)],
      start_node = 0,
      medoid_tracker = \<lparr>m_sum = [4], m_n = 3, m_interval = 10000, m_countdown = 9997\<rparr>,
      delete_list = {}\<rparr>"

definition ex_line3 :: vamana where
  "ex_line3 = ex_line\<lparr>R := 3\<rparr>"

text \<open>The index with the inner-product metric after \<open>insert(0, (2))\<close> into the empty one.\<close>

definition ex_ip :: vamana where
  "ex_ip =
     \<lparr>R = 4, metric = INNER_PRODUCT, dims = 1,
      node_map = [(0, \<lparr>neighbors = [], vector = [2]\<rparr>)],
      start_node = 0,
      medoid_tracker = \<lparr>m_sum = [2], m_n = 1, m_interval = 10000, m_countdown = 9999\<rparr>,
      delete_list = {}\<rparr>"


text \<open>
  The index after \<open>insert(4294967295, (0))\<close> into the empty one: the first insert does
  not search, since the entry point 0 is absent.
\<close>

definition ex_max_id :: vamana where
  "ex_max_id =
     \<lparr>R = 4, metric = L2, dims = 1,
      node_map = [(4294967295, \<lparr>neighbors = [], vector = [0]\<rparr>)],
      start_node = 0,
      medoid_tracker = \<lparr>m_sum = [0], m_n = 1, m_interval = 10000, m_countdown = 9999\<rparr>,
      delete_list = {}\<rparr>"

section \<open>Evaluation on concrete indexes\<close>

lemmas eval_defs =
  vamana_insert_def vamana_update_def vamana_remove_def Vamana_init_def StreamingMedoid_init_def
  try_emplace_def try_medoid_compute_def medoid_add_def medoid_sub_def should_recompute_def
  centroid_def greedy_search_def accept_candidate_def push_min_def push_max_def cand_def
  acquire_def VisitedSet_new_def mark_def ensure_capacity_def resize_def
  robust_prune_def prune_later_def set_neighbors_def update_neighbors_def ncandidates_of_def
  approx_in_of_def select_top_c_def patch_edges_def dedup_vector_def erase_node_def nm_erase_def
  restart_at_begin_def repair_start_node_def
  l2_distance_def l2_lanes_def ip_distance_def FLT_MAX_def FLT_LOWEST_def batch_delete_def

lemma insert_first: "vamana_insert (Vamana_init 4 L2 1) 0 [0] 2 (6 / 5) = Some ex_one_node"
  by (simp add: eval_defs ex_one_node_def)

lemma insert_second: "vamana_insert ex_one_node 1 [1] 2 (6 / 5) = Some ex_two_nodes"
  by (simp add: eval_defs ex_one_node_def ex_two_nodes_def)

lemma remove_second: "vamana_remove ex_two_nodes 1 = Some ex_after_remove"
  by (simp add: eval_defs ex_two_nodes_def ex_after_remove_def)

section \<open>The node store\<close>

lemma map_of_nm_update:
  "map_of (nm_update k v nm) k' = (if k' = k then Some v else map_of nm k')"
  by (induction nm) auto

lemma set_nm_update: "set (nm_update k v nm) \<subseteq> insert (k, v) (set nm)"
  by (induction nm) auto

section \<open>The visited set\<close>

text \<open>
  A new visited set and a cleared one have no id marked, and for an id below \<open>2^32 - 1\<close>
  the answer of \<open>mark\<close> and the ids marked afterwards depend on the marked ids only,
  not on the number of flags. So the search behaves alike on a new set and on a pooled
  one; the two differ only for a node map of \<open>2^32\<close> entries or more.
\<close>

lemma visited_ok_new: "visited_ok (VisitedSet_new n) \<and> marked (VisitedSet_new n) = {}"
  by (simp add: visited_ok_def VisitedSet_new_def marked_def list_all_iff)

lemma visited_ok_clear:
  assumes "visited_ok v"
  shows "visited_ok (VisitedSet_clear v) \<and> marked (VisitedSet_clear v) = {}"
proof (cases "v_tag v + 1 = 0")
  case True
  then show ?thesis
    by (simp add: VisitedSet_clear_def visited_ok_def marked_def list_all_iff)
next
  case False
  then have "1 + v_tag v \<noteq> 0" by (simp add: add.commute)
  then have "unat (1 + v_tag v) = Suc (unat (v_tag v))" by (rule unatSuc)
  then have "unat (v_tag v + 1) = Suc (unat (v_tag v))" by (simp add: add.commute)
  then have lt: "v_tag v < v_tag v + 1" by (simp add: word_less_nat_alt)
  have less: "f < v_tag v + 1" if "f \<in> set (v_flags v)" for f
    using that assms lt by (auto simp: visited_ok_def list_all_iff)
  have "list_all (\<lambda>f. f \<le> v_tag v + 1) (v_flags v)"
    using less by (auto simp: list_all_iff intro: less_imp_le)
  moreover have "v_flags v ! i \<noteq> v_tag v + 1" if "i < length (v_flags v)" for i
    using less [of "v_flags v ! i"] that by auto
  ultimately show ?thesis using False
    by (auto simp: VisitedSet_clear_def visited_ok_def marked_def)
qed

lemma mark_marked:
  assumes "visited_ok v" and "ident < 4294967295"
  shows "\<exists>v'. mark v ident = Some (ident \<notin> marked v, v') \<and> marked v' = insert ident (marked v)
           \<and> visited_ok v'"
proof -
  define v1 where "v1 = ensure_capacity ident v"
  have tag: "v_tag v1 = v_tag v" by (simp add: v1_def ensure_capacity_def)
  obtain k where fl: "v_flags v1 = v_flags v @ replicate k 0" and len: "ident < length (v_flags v1)"
  proof (cases "length (v_flags v) \<le> ident")
    case True
    with assms(2) have "v_flags v1 = v_flags v @ replicate (ident + 1 - length (v_flags v)) 0"
      by (simp add: v1_def ensure_capacity_def resize_def)
    moreover from this True have "ident < length (v_flags v1)" by simp
    ultimately show ?thesis using that by blast
  next
    case False
    then have "v_flags v1 = v_flags v @ replicate 0 0" "ident < length (v_flags v1)"
      by (simp_all add: v1_def ensure_capacity_def)
    then show ?thesis using that by blast
  qed
  have ok1: "visited_ok v1"
    using assms(1) by (auto simp: visited_ok_def list_all_iff tag fl)
  have m1: "marked v1 = marked v"
  proof -
    have "v_flags v1 ! i \<noteq> v_tag v" if "length (v_flags v) \<le> i" "i < length (v_flags v1)" for i
    proof -
      from that have "v_flags v1 ! i = 0" by (simp add: fl nth_append)
      with assms(1) show ?thesis by (simp add: visited_ok_def)
    qed
    moreover have "v_flags v1 ! i = v_flags v ! i" if "i < length (v_flags v)" for i
      using that by (simp add: fl nth_append)
    moreover have "length (v_flags v) \<le> length (v_flags v1)" by (simp add: fl)
    ultimately show ?thesis
      unfolding marked_def tag by (metis (no_types, lifting) not_less order.strict_trans2)
  qed
  show ?thesis
  proof (cases "v_flags v1 ! ident = v_tag v1")
    case True
    with len have "ident \<in> marked v1" by (simp add: marked_def)
    with True len ok1 m1 show ?thesis
      by (auto simp: mark_def Let_def v1_def [symmetric])
  next
    case False
    with len have nm: "ident \<notin> marked v1" by (simp add: marked_def)
    define v2 where "v2 = v1\<lparr>v_flags := (v_flags v1)[ident := v_tag v1]\<rparr>"
    have "marked v2 = insert ident (marked v1)"
      using len by (auto simp: v2_def marked_def nth_list_update)
    moreover have "visited_ok v2"
      using ok1 set_update_subset_insert [of "v_flags v1" ident "v_tag v1"]
      by (auto simp: v2_def visited_ok_def list_all_iff)
    moreover have "mark v ident = Some (True, v2)"
      using False len by (auto simp: mark_def Let_def v1_def [symmetric] v2_def)
    ultimately show ?thesis using nm m1 by simp
  qed
qed

section \<open>Robust prune does not depend on alpha\<close>

text \<open>
  A run of the loop that does not return early leaves every candidate either marked
  (consumed or pruned, the same mark) or equal to \<open>p\<close>. The second run therefore
  finds nothing to add, whatever its \<open>alpha\<close>.
\<close>

lemma prune_pass_unmarked:
  "prune_pass s p alpha pns cs = (False, pn, cs')
     \<Longrightarrow> \<forall>c \<in> set cs'. distance c = FLT_LOWEST \<or> cid c = p"
proof (induction s p alpha pns cs arbitrary: pn cs' rule: prune_pass.induct)
  case (1 s p alpha pneighbors)
  then show ?case by simp
next
  case (2 s p alpha pneighbors c cs)
  show ?case
  proof (cases "R s \<le> length pneighbors \<or> distance c = FLT_LOWEST \<or> cid c = p")
    case True
    with 2 show ?thesis by (auto split: if_splits prod.splits)
  next
    case False
    show ?thesis
    proof (cases "map_of (node_map s) (cid c)")
      case None
      with False 2(3) 2(5) show ?thesis by (auto split: prod.splits)
    next
      case (Some x2)
      with False 2(4) [OF _ _ _ Some] 2(5) show ?thesis by (auto split: prod.splits)
    qed
  qed
qed

lemma prune_pass_all_marked:
  "\<forall>c \<in> set cs. distance c = FLT_LOWEST \<or> cid c = p
     \<Longrightarrow> \<exists>ret. prune_pass s p alpha pns cs = (ret, pns, cs)"
  by (induction cs) auto

lemma robust_prune_alpha: "robust_prune s p cs alpha = robust_prune s p cs 1"
proof (cases "map_of (node_map s) p")
  case None
  then show ?thesis by (simp add: robust_prune_def)
next
  case (Some n)
  obtain ret pn cs' where pp: "prune_pass s p 1 [] cs = (ret, pn, cs')"
    by (cases "prune_pass s p 1 [] cs") auto
  show ?thesis
  proof (cases ret)
    case True
    with Some pp show ?thesis by (simp add: robust_prune_def)
  next
    case False
    with pp have "prune_pass s p 1 [] cs = (False, pn, cs')" by simp
    then have "\<forall>c \<in> set cs'. distance c = FLT_LOWEST \<or> cid c = p"
      by (rule prune_pass_unmarked)
    then obtain r1 r2 where "prune_pass s p alpha pn cs' = (r1, pn, cs')"
      "prune_pass s p 1 pn cs' = (r2, pn, cs')"
      using prune_pass_all_marked by metis
    with Some pp False show ?thesis by (simp add: robust_prune_def)
  qed
qed

section \<open>What robust prune and the back-edge patch change\<close>

lemma set_neighbors_fields [simp]:
  "R (set_neighbors s p n nbrs) = R s"
  "metric (set_neighbors s p n nbrs) = metric s"
  "dims (set_neighbors s p n nbrs) = dims s"
  "start_node (set_neighbors s p n nbrs) = start_node s"
  "medoid_tracker (set_neighbors s p n nbrs) = medoid_tracker s"
  "delete_list (set_neighbors s p n nbrs) = delete_list s"
  "node_map (set_neighbors s p n nbrs) = nm_update p (n\<lparr>neighbors := nbrs\<rparr>) (node_map s)"
  by (simp_all add: set_neighbors_def)

lemma prune_pass_length:
  "length pns \<le> R s \<Longrightarrow> prune_pass s p alpha pns cs = (ret, pn, cs') \<Longrightarrow> length pn \<le> R s"
proof (induction s p alpha pns cs arbitrary: ret pn cs' rule: prune_pass.induct)
  case (1 s p alpha pneighbors)
  then show ?case by simp
next
  case (2 s p alpha pneighbors c cs)
  show ?case
  proof (cases "R s \<le> length pneighbors \<or> distance c = FLT_LOWEST \<or> cid c = p")
    case True
    with 2 show ?thesis by (auto split: if_splits prod.splits)
  next
    case False
    then have len: "length (pneighbors @ [cid c]) \<le> R s" by simp
    show ?thesis
    proof (cases "map_of (node_map s) (cid c)")
      case None
      with False 2(3) [OF _ _ _ None len] 2(6) show ?thesis by (auto split: prod.splits)
    next
      case (Some x2)
      with False 2(4) [OF _ _ _ Some len] 2(6) show ?thesis by (auto split: prod.splits)
    qed
  qed
qed

lemma robust_prune_absent:
  "map_of (node_map s) p = None \<Longrightarrow> fst (robust_prune s p cs alpha) = s"
  by (simp add: robust_prune_def)

lemma robust_prune_present:
  assumes "map_of (node_map s) p = Some n"
  shows "\<exists>pn. length pn \<le> R s \<and> fst (robust_prune s p cs alpha) = set_neighbors s p n pn"
proof -
  obtain ret pn cs' where pp: "prune_pass s p 1 [] cs = (ret, pn, cs')"
    by (cases "prune_pass s p 1 [] cs") auto
  then have l1: "length pn \<le> R s" using prune_pass_length [of "[]" s p 1 cs ret pn cs'] by simp
  obtain ret2 pn2 cs2 where pp2: "prune_pass s p alpha pn cs' = (ret2, pn2, cs2)"
    by (cases "prune_pass s p alpha pn cs'") auto
  with l1 have l2: "length pn2 \<le> R s" using prune_pass_length by blast
  show ?thesis
  proof (cases ret)
    case True
    with assms pp l1 show ?thesis by (auto simp: robust_prune_def)
  next
    case False
    with assms pp pp2 l2 show ?thesis by (auto simp: robust_prune_def)
  qed
qed

lemma robust_prune_fields [simp]:
  "R (fst (robust_prune s p cs alpha)) = R s"
  "metric (fst (robust_prune s p cs alpha)) = metric s"
  "dims (fst (robust_prune s p cs alpha)) = dims s"
  "start_node (fst (robust_prune s p cs alpha)) = start_node s"
  "medoid_tracker (fst (robust_prune s p cs alpha)) = medoid_tracker s"
  "delete_list (fst (robust_prune s p cs alpha)) = delete_list s"
proof -
  consider "map_of (node_map s) p = None" | n where "map_of (node_map s) p = Some n" by blast
  then have "\<exists>nm. fst (robust_prune s p cs alpha) = s\<lparr>node_map := nm\<rparr>"
  proof cases
    case 1
    then have "fst (robust_prune s p cs alpha) = s\<lparr>node_map := node_map s\<rparr>"
      by (simp add: robust_prune_absent)
    then show ?thesis by blast
  next
    case 2
    from robust_prune_present [OF 2, of cs alpha] show ?thesis
      by (auto simp: set_neighbors_def)
  qed
  then obtain nm where e: "fst (robust_prune s p cs alpha) = s\<lparr>node_map := nm\<rparr>" by blast
  show "R (fst (robust_prune s p cs alpha)) = R s"
    "metric (fst (robust_prune s p cs alpha)) = metric s"
    "dims (fst (robust_prune s p cs alpha)) = dims s"
    "start_node (fst (robust_prune s p cs alpha)) = start_node s"
    "medoid_tracker (fst (robust_prune s p cs alpha)) = medoid_tracker s"
    "delete_list (fst (robust_prune s p cs alpha)) = delete_list s"
    by (simp_all add: e)
qed

lemma degree_ok_set_neighbors:
  "degree_ok s \<Longrightarrow> length nbrs \<le> R s \<Longrightarrow> degree_ok (set_neighbors s p n nbrs)"
  unfolding degree_ok_def using set_nm_update [of p "n\<lparr>neighbors := nbrs\<rparr>" "node_map s"]
  by auto

lemma degree_ok_robust_prune:
  "degree_ok s \<Longrightarrow> degree_ok (fst (robust_prune s p cs alpha))"
proof (cases "map_of (node_map s) p")
  case None
  then show "degree_ok s \<Longrightarrow> ?thesis" by (simp add: robust_prune_absent)
next
  case (Some n)
  from robust_prune_present [OF Some, of cs alpha]
  show "degree_ok s \<Longrightarrow> ?thesis" by (auto intro: degree_ok_set_neighbors)
qed

lemma update_neighbors_loop_fields [simp]:
  "R (update_neighbors_loop ident vec alpha ns s) = R s"
  "metric (update_neighbors_loop ident vec alpha ns s) = metric s"
  "dims (update_neighbors_loop ident vec alpha ns s) = dims s"
  "start_node (update_neighbors_loop ident vec alpha ns s) = start_node s"
  "medoid_tracker (update_neighbors_loop ident vec alpha ns s) = medoid_tracker s"
  "delete_list (update_neighbors_loop ident vec alpha ns s) = delete_list s"
  by (induction ns arbitrary: s; simp split: option.splits)+

lemma degree_ok_update_neighbors_loop:
  "degree_ok s \<Longrightarrow> degree_ok (update_neighbors_loop ident vec alpha ns s)"
proof (induction ns arbitrary: s)
  case Nil
  then show ?case by simp
next
  case (Cons a ns)
  show ?case
  proof (cases "a \<in> delete_list s")
    case True
    with Cons show ?thesis by simp
  next
    case False
    show ?thesis
    proof (cases "map_of (node_map s) a")
      case None
      with False Cons show ?thesis by simp
    next
      case (Some v)
      show ?thesis
      proof (cases "R s \<le> length (neighbors v)")
        case True
        with False Some Cons.IH [OF degree_ok_robust_prune [OF Cons.prems]]
        show ?thesis by simp
      next
        case full: False
        then have "degree_ok (set_neighbors s a v (neighbors v @ [ident]))"
          using Cons.prems by (intro degree_ok_set_neighbors) auto
        with False Some full Cons show ?thesis by simp
      qed
    qed
  qed
qed

lemma try_medoid_compute_frame:
  assumes "try_medoid_compute s point force = Some s'"
  shows "node_map s' = node_map s" "R s' = R s" "delete_list s' = delete_list s"
    "metric s' = metric s" "dims s' = dims s"
  using assms unfolding try_medoid_compute_def Let_def
  by (auto split: prod.splits option.splits list.splits if_splits)

lemma nm_update_twice: "nm_update k v2 (nm_update k v1 nm) = nm_update k v2 nm"
  by (induction nm) auto

lemma map_of_try_emplace:
  "map_of (try_emplace k vec nm) k' =
     (if k' = k \<and> map_of nm k = None then Some \<lparr>neighbors = [], vector = vec\<rparr> else map_of nm k')"
  by (auto simp: try_emplace_def map_add_def split: option.splits)

lemma robust_prune_dom:
  "(map_of (node_map (fst (robust_prune s p cs alpha))) k = None) = (map_of (node_map s) k = None)"
proof (cases "map_of (node_map s) p")
  case None
  then show ?thesis by (simp add: robust_prune_absent)
next
  case (Some n)
  from robust_prune_present [OF Some, of cs alpha] Some show ?thesis
    by (auto simp: map_of_nm_update split: if_splits)
qed

lemma update_neighbors_returns:
  "map_of (node_map s) ident \<noteq> None \<Longrightarrow> \<exists>s'. update_neighbors s ident vec alpha = Some s'"
  by (auto simp: update_neighbors_def)

section \<open>The degree bound is an invariant\<close>

lemma degree_ok_try_emplace:
  "degree_ok s \<Longrightarrow> degree_ok (s\<lparr>node_map := try_emplace ident vec (node_map s)\<rparr>)"
  by (auto simp: degree_ok_def try_emplace_def split: option.splits)

lemma degree_ok_cong:
  "node_map s' = node_map s \<Longrightarrow> R s' = R s \<Longrightarrow> degree_ok s' = degree_ok s"
  by (simp add: degree_ok_def)

lemma degree_ok_update_neighbors:
  "degree_ok s \<Longrightarrow> update_neighbors s ident vec alpha = Some s' \<Longrightarrow> degree_ok s'"
  by (auto simp: update_neighbors_def degree_ok_update_neighbors_loop split: option.splits)

lemma degree_ok_insert:
  assumes "degree_ok s" and "vamana_insert s ident vec L alpha = Some s'"
  shows "degree_ok s'"
proof -
  from assms(2) obtain s2 nn where
    t: "try_medoid_compute (s\<lparr>node_map := try_emplace ident vec (node_map s)\<rparr>) vec False = Some s2"
    and u: "update_neighbors (fst (robust_prune s2 ident nn alpha)) ident vec alpha = Some s'"
    by (auto simp: vamana_insert_def split: option.splits)
  have "degree_ok s2"
    using degree_ok_try_emplace [OF assms(1), of ident vec]
      degree_ok_cong [OF try_medoid_compute_frame(1) [OF t] try_medoid_compute_frame(2) [OF t]]
    by simp
  then have "degree_ok (fst (robust_prune s2 ident nn alpha))" by (rule degree_ok_robust_prune)
  then show ?thesis using u by (rule degree_ok_update_neighbors)
qed

lemma degree_ok_update:
  assumes "degree_ok s" and "vamana_update s ident vec L alpha = Some s'"
  shows "degree_ok s'"
proof (cases "map_of (node_map s) ident = None \<or> ident \<in> delete_list s")
  case True
  with assms show ?thesis by (auto simp: vamana_update_def split: option.splits)
next
  case False
  then obtain it where it: "map_of (node_map s) ident = Some it" by auto
  define s1 where "s1 = s\<lparr>node_map := nm_update ident (it\<lparr>vector := vec\<rparr>) (node_map s)\<rparr>"
  from assms(2) it False obtain nn where
    u: "update_neighbors (fst (robust_prune s1 ident nn alpha)) ident vec alpha = Some s'"
    by (auto simp: vamana_update_def s1_def Let_def split: option.splits)
  have "(ident, it) \<in> set (node_map s)" using it by (rule map_of_SomeD)
  with assms(1) have "length (neighbors it) \<le> R s" by (auto simp: degree_ok_def)
  with assms(1) have "degree_ok s1"
    unfolding degree_ok_def s1_def
    using set_nm_update [of ident "it\<lparr>vector := vec\<rparr>" "node_map s"] by auto
  then have "degree_ok (fst (robust_prune s1 ident nn alpha))" by (rule degree_ok_robust_prune)
  then show ?thesis using u by (rule degree_ok_update_neighbors)
qed

lemma degree_ok_batch_delete: "degree_ok s \<Longrightarrow> degree_ok (batch_delete s)"
  by (auto simp: degree_ok_def batch_delete_def intro: le_trans [OF length_filter_le])

lemma patch_edges_R: "patch_edges s owner add = Some s' \<Longrightarrow> R s' = R s"
  by (auto simp: patch_edges_def Let_def split: option.splits if_splits)

lemma degree_ok_patch_edges:
  assumes "degree_ok s" and "patch_edges s owner add = Some s'"
  shows "degree_ok s'"
proof -
  from assms(2) obtain n where n: "map_of (node_map s) owner = Some n"
    by (auto simp: patch_edges_def split: option.splits)
  define nbrs where "nbrs = dedup_vector (neighbors n @ add)"
  define s1 where "s1 = set_neighbors s owner n nbrs"
  show ?thesis
  proof (cases "length nbrs > R s")
    case False
    with assms(2) n have "s' = s1" by (auto simp: patch_edges_def Let_def nbrs_def s1_def)
    with False assms(1) show ?thesis by (auto simp: s1_def intro: degree_ok_set_neighbors)
  next
    case True
    with assms(2) n obtain cs where s': "s' = fst (robust_prune s1 owner cs (5033165 / 4194304))"
      by (auto simp: patch_edges_def Let_def nbrs_def s1_def)
    have "map_of (node_map s1) owner = Some (n\<lparr>neighbors := nbrs\<rparr>)"
      by (simp add: s1_def map_of_nm_update)
    from robust_prune_present [OF this, of cs "5033165 / 4194304"]
    obtain pn where pn: "length pn \<le> R s" "s' = set_neighbors s1 owner (n\<lparr>neighbors := nbrs\<rparr>) pn"
      using s' by (auto simp: s1_def)
    have "s' = set_neighbors s owner n pn"
      using pn(2) by (simp add: set_neighbors_def s1_def nm_update_twice)
    with pn(1) assms(1) show ?thesis by (auto intro: degree_ok_set_neighbors)
  qed
qed

lemma degree_ok_patch_in_neighbors:
  "degree_ok s \<Longrightarrow> patch_in_neighbors ident sr zs s = Some s' \<Longrightarrow> degree_ok s'"
proof (induction zs arbitrary: s)
  case Nil
  then show ?case by simp
next
  case (Cons z zs)
  then show ?case
    by (auto split: option.splits dest: degree_ok_patch_edges)
qed

lemma degree_ok_patch_out_edges:
  "degree_ok s \<Longrightarrow> patch_out_edges w ys s = Some s' \<Longrightarrow> degree_ok s'"
proof (induction ys arbitrary: s)
  case Nil
  then show ?case by simp
next
  case (Cons y ys)
  then show ?case
    by (auto split: option.splits if_splits dest: degree_ok_patch_edges)
qed

lemma degree_ok_patch_out_neighbors:
  "degree_ok s \<Longrightarrow> patch_out_neighbors ident sr ws s = Some s' \<Longrightarrow> degree_ok s'"
proof (induction ws arbitrary: s)
  case Nil
  then show ?case by simp
next
  case (Cons w ws)
  then show ?case
    by (auto split: option.splits if_splits dest: degree_ok_patch_out_edges)
qed

lemma degree_ok_erase_node: "degree_ok s \<Longrightarrow> degree_ok (erase_node s ident vec)"
  by (auto simp: degree_ok_def erase_node_def nm_erase_def)

lemma degree_ok_start_node [simp]: "degree_ok (s\<lparr>start_node := x\<rparr>) = degree_ok s"
  by (simp add: degree_ok_def)

lemma degree_ok_medoid_tracker [simp]: "degree_ok (s\<lparr>medoid_tracker := x\<rparr>) = degree_ok s"
  by (simp add: degree_ok_def)

lemma degree_ok_restart_at_begin: "degree_ok s \<Longrightarrow> degree_ok (restart_at_begin s ident)"
  by (auto simp: restart_at_begin_def split: list.splits)

lemma degree_ok_repair_start_node:
  "degree_ok s \<Longrightarrow> repair_start_node s ident = Some s' \<Longrightarrow> degree_ok s'"
  by (auto simp: repair_start_node_def
           split: if_splits list.splits prod.splits option.splits)

lemma degree_ok_remove:
  assumes "degree_ok s" and "vamana_remove s ident = Some s'"
  shows "degree_ok s'"
proof (cases "map_of (node_map s) ident")
  case None
  with assms show ?thesis by (simp add: vamana_remove_def)
next
  case (Some it)
  from assms(2) Some obtain sr where
    sr: "greedy_search s (start_node s) (vector it) 50 128 [] None = Some sr"
    by (auto simp: vamana_remove_def split: option.splits)
  show ?thesis
  proof (cases "approx_in_of s ident sr = [] \<and> neighbors it = []")
    case True
    with assms(2) Some sr have "s' = restart_at_begin (erase_node s ident (vector it)) ident"
      by (auto simp: vamana_remove_def)
    with assms(1) show ?thesis
      by (simp add: degree_ok_restart_at_begin degree_ok_erase_node)
  next
    case False
    with assms(2) Some sr have
      "\<exists>s4 (it4::vamana_node_t) s5 (it5::vamana_node_t). patch_in_neighbors ident sr (approx_in_of s ident sr) s = Some s4
         \<and> patch_out_neighbors ident sr (neighbors it4) s4 = Some s5
         \<and> repair_start_node (erase_node s5 ident (vector it5)) ident = Some s'"
      by (simp add: vamana_remove_def split: option.splits) blast
    then obtain s4 and it4 :: vamana_node_t and s5 and it5 :: vamana_node_t where
      s4: "patch_in_neighbors ident sr (approx_in_of s ident sr) s = Some s4"
      and s5: "patch_out_neighbors ident sr (neighbors it4) s4 = Some s5"
      and fin: "repair_start_node (erase_node s5 ident (vector it5)) ident = Some s'"
      by blast
    have "degree_ok s5"
      using degree_ok_patch_out_neighbors [OF degree_ok_patch_in_neighbors [OF assms(1) s4] s5] .
    then have "degree_ok (erase_node s5 ident (vector it5))" by (rule degree_ok_erase_node)
    then show ?thesis using fin by (rule degree_ok_repair_start_node)
  qed
qed

lemma degree_ok_init: "degree_ok (Vamana_init r m d)"
  by (simp add: degree_ok_def Vamana_init_def)

section \<open>Stored vectors\<close>

lemma set_neighbors_vectors:
  "map_of (node_map s) p = Some n
     \<Longrightarrow> map_option vector (map_of (node_map (set_neighbors s p n nbrs)) k)
         = map_option vector (map_of (node_map s) k)"
  by (simp add: map_of_nm_update)

lemma robust_prune_vectors:
  "map_option vector (map_of (node_map (fst (robust_prune s p cs alpha))) k)
     = map_option vector (map_of (node_map s) k)"
proof (cases "map_of (node_map s) p")
  case None
  then show ?thesis by (simp add: robust_prune_absent)
next
  case (Some n)
  from robust_prune_present [OF Some, of cs alpha] set_neighbors_vectors [OF Some]
  show ?thesis by auto
qed

lemma update_neighbors_loop_vectors:
  "map_option vector (map_of (node_map (update_neighbors_loop ident vec alpha ns s)) k)
     = map_option vector (map_of (node_map s) k)"
proof (induction ns arbitrary: s)
  case Nil
  show ?case by simp
next
  case (Cons a ns)
  show ?case
  proof (cases "a \<in> delete_list s")
    case True
    with Cons show ?thesis by simp
  next
    case False
    show ?thesis
    proof (cases "map_of (node_map s) a")
      case None
      with False Cons show ?thesis by simp
    next
      case (Some v)
      with False Cons [of "fst (robust_prune s a (ncandidates_of s ident v vec) alpha)"]
        Cons [of "set_neighbors s a v (neighbors v @ [ident])"] Cons [of s]
        robust_prune_vectors [of s a _ alpha k] set_neighbors_vectors [OF Some, of _ k]
      show ?thesis by simp
    qed
  qed
qed

lemma try_medoid_compute_tracker:
  assumes "try_medoid_compute s point force = Some s'"
  shows "m_n (medoid_tracker s') = m_n (medoid_tracker s) + 1"
    and "m_sum (medoid_tracker s')
           = map (\<lambda>i. m_sum (medoid_tracker s) ! i + point ! i) [0..<length (m_sum (medoid_tracker s))]"
  using assms unfolding try_medoid_compute_def Let_def
  by (auto simp: medoid_add_def centroid_def split: prod.splits option.splits list.splits if_splits)

section \<open>What the greedy search returns\<close>

lemma visit_neighbors_cand_ok:
  "list_all (cand_ok s q) cs \<Longrightarrow> visit_neighbors s q ids (cs, vs) = Some (cs', vs')
     \<Longrightarrow> list_all (cand_ok s q) cs'"
proof (induction ids arbitrary: cs vs)
  case Nil
  then show ?case by simp
next
  case (Cons i ids)
  from Cons.prems(2) obtain b v1 where m: "mark vs i = Some (b, v1)"
    by (auto split: option.splits)
  show ?case
  proof (cases "b \<and> map_of (node_map s) i \<noteq> None")
    case False
    with m Cons.prems(2) have "visit_neighbors s q ids (cs, v1) = Some (cs', vs')"
      by (auto split: if_splits)
    with Cons.IH Cons.prems(1) show ?thesis by blast
  next
    case True
    then obtain nit where nit: "map_of (node_map s) i = Some nit" by auto
    have "list_all (cand_ok s q) (push_min (cand i (compute (metric s) (vector nit) q (dims s))) cs)"
      using Cons.prems(1) nit
      by (simp add: list_all_iff push_min_def set_insort_key cand_ok_def cand_def)
    moreover from True m nit Cons.prems(2)
    have "visit_neighbors s q ids
            (push_min (cand i (compute (metric s) (vector nit) q (dims s))) cs, v1) = Some (cs', vs')"
      by simp
    ultimately show ?thesis using Cons.IH by blast
  qed
qed

lemma sorted_tl_neg: "sorted (map f xs) \<Longrightarrow> sorted (map f (tl xs))"
  by (cases xs) auto

lemma accept_candidate_inv:
  assumes "accept_candidate s L f nn results maxd = Some (r, m)"
    and "sorted (map (\<lambda>x. - distance x) results)"
    and "list_all (\<lambda>c. cand_ok s q c \<and> result_ok s f c) results"
    and "cand_ok s q nn"
  shows "sorted (map (\<lambda>x. - distance x) r) \<and> list_all (\<lambda>c. cand_ok s q c \<and> result_ok s f c) r"
proof -
  have push: "sorted (map (\<lambda>x. - distance x) (push_max nn results))"
    using assms(2) by (simp add: push_max_def sorted_insort_key)
  have tl_all: "list_all P (tl xs)" if "list_all P xs" for P and xs :: "vamana_candidate_t list"
    using that by (cases xs) auto
  have ok: "list_all (\<lambda>c. cand_ok s q c \<and> result_ok s f c) (push_max nn results)"
    if "result_ok s f nn"
    using that assms(3,4) by (simp add: list_all_iff push_max_def set_insort_key)
  show ?thesis
  proof (cases "(length results < L \<or> distance nn < distance (hd results)) \<and> cid nn \<notin> delete_list s")
    case False
    with assms show ?thesis by (auto simp: accept_candidate_def split: if_splits)
  next
    case True
    show ?thesis
    proof (cases "case f of None \<Rightarrow> True | Some g \<Rightarrow> g (cid nn)")
      case acc: True
      with True have rok: "result_ok s f nn" by (simp add: result_ok_def)
      from assms(1) True acc
      have "r = (if length (push_max nn results) > L then tl (push_max nn results) else push_max nn results)"
        by (auto simp: accept_candidate_def Let_def split: if_splits option.splits)
      with push ok [OF rok] show ?thesis by (auto intro: sorted_tl_neg tl_all)
    next
      case rej: False
      with assms(1) True
      have "r = (if length results > L then tl results else results)"
        by (auto simp: accept_candidate_def Let_def split: if_splits option.splits)
      with assms(2,3) show ?thesis by (auto intro: sorted_tl_neg tl_all)
    qed
  qed
qed

lemma gs_loop_inv:
  "gs_loop s q L f cands results visited maxd = Some r
     \<Longrightarrow> list_all (cand_ok s q) cands
     \<Longrightarrow> sorted (map (\<lambda>x. - distance x) results)
     \<Longrightarrow> list_all (\<lambda>c. cand_ok s q c \<and> result_ok s f c) results
     \<Longrightarrow> sorted (map (\<lambda>x. - distance x) r) \<and> list_all (\<lambda>c. cand_ok s q c \<and> result_ok s f c) r"
proof (induction s q L f cands results visited maxd rule: gs_loop.induct)
  case (1 s query L filter_fn results visited max_distance)
  then show ?case by simp
next
  case (2 s query L filter_fn nn rest results visited max_distance)
  show ?case
  proof (cases "max_distance < distance nn")
    case True
    with 2 show ?thesis by simp
  next
    case False
    with 2(3) obtain r1 m1 where
      acc: "accept_candidate s L filter_fn nn results max_distance = Some (r1, m1)"
      by (auto split: option.splits)
    from 2(4) have nn: "cand_ok s query nn" and rest: "list_all (cand_ok s query) rest" by auto
    from accept_candidate_inv [OF acc 2(5) 2(6) nn]
    have s1: "sorted (map (\<lambda>x. - distance x) r1)"
      and a1: "list_all (\<lambda>c. cand_ok s query c \<and> result_ok s filter_fn c) r1" by auto
    show ?thesis
    proof (cases "map_of (node_map s) (cid nn)")
      case None
      with False acc 2(3) have "gs_loop s query L filter_fn rest r1 visited m1 = Some r" by simp
      from 2(1) [OF False acc _ None this rest s1 a1] show ?thesis by simp
    next
      case (Some nd)
      with False acc 2(3) obtain c' v' where
        vn: "visit_neighbors s query (neighbors nd) (rest, visited) = Some (c', v')"
        and g: "gs_loop s query L filter_fn c' r1 v' m1 = Some r"
        by (auto split: option.splits)
      have c': "list_all (cand_ok s query) c'" using visit_neighbors_cand_ok [OF rest vn] .
      from 2(2) [OF False acc _ Some vn _ g c' s1 a1] show ?thesis by simp
    qed
  qed
qed

lemma sorted_rev_neg: "sorted (map (\<lambda>x. - distance x) r) \<Longrightarrow> sorted (map distance (rev r))"
  by (simp add: sorted_wrt_map rev_map [symmetric] sorted_wrt_rev del: rev_map)

lemma greedy_search_inv:
  assumes "greedy_search s start q k L [] f = Some out"
  shows "length out \<le> k \<and> sorted (map distance out)
         \<and> list_all (\<lambda>c. cand_ok s q c \<and> result_ok s f c) out"
proof (cases "map_of (node_map s) start")
  case None
  with assms show ?thesis by (simp add: greedy_search_def)
next
  case (Some n)
  with assms obtain v r where
    r: "gs_loop s q L f [cand start (compute (metric s) (vector n) q (dims s))] [] v FLT_MAX = Some r"
    and out: "out = take k (rev r)"
    by (auto simp: greedy_search_def split: option.splits)
  have "list_all (cand_ok s q) [cand start (compute (metric s) (vector n) q (dims s))]"
    using Some by (simp add: cand_ok_def cand_def)
  from gs_loop_inv [OF r this]
  have s: "sorted (map (\<lambda>x. - distance x) r)"
    and a: "list_all (\<lambda>c. cand_ok s q c \<and> result_ok s f c) r" by auto
  have "sorted (map distance (take k (rev r)))"
    using sorted_rev_neg [OF s] by (simp add: take_map [symmetric] sorted_wrt_take del: take_map)
  moreover have "list_all (\<lambda>c. cand_ok s q c \<and> result_ok s f c) (take k (rev r))"
    using a by (auto simp: list_all_iff dest: in_set_takeD)
  ultimately show ?thesis by (simp add: out)
qed

section \<open>Ids stay in range\<close>

text \<open>
  The operations put only ids into neighbor lists that are keys of the node map, old
  neighbors or the id they are called with.
\<close>

lemma ids_in_range_cong: "node_map s' = node_map s \<Longrightarrow> ids_in_range s' = ids_in_range s"
  by (simp add: ids_in_range_def)

lemma ids_in_range_key:
  "ids_in_range s \<Longrightarrow> map_of (node_map s) k = Some n
     \<Longrightarrow> k < 4294967295 \<and> (\<forall>v \<in> set (neighbors n). v < 4294967295)"
  by (auto simp: ids_in_range_def dest!: map_of_SomeD)

lemma ids_in_range_set_neighbors:
  "ids_in_range s \<Longrightarrow> p < 4294967295 \<Longrightarrow> \<forall>v \<in> set nbrs. v < 4294967295
     \<Longrightarrow> ids_in_range (set_neighbors s p n nbrs)"
  unfolding ids_in_range_def using set_nm_update [of p "n\<lparr>neighbors := nbrs\<rparr>" "node_map s"]
  by auto

lemma cid_prune_later [simp]: "cid (prune_later s p alpha nv c) = cid c"
  by (simp add: prune_later_def split: option.splits)

lemma prune_pass_ids:
  "prune_pass s p alpha pns cs = (ret, pn, cs') \<Longrightarrow> set pn \<subseteq> set pns \<union> cid ` set cs"
proof (induction s p alpha pns cs arbitrary: ret pn cs' rule: prune_pass.induct)
  case (1 s p alpha pneighbors)
  then show ?case by simp
next
  case (2 s p alpha pneighbors c cs)
  show ?case
  proof (cases "R s \<le> length pneighbors \<or> distance c = FLT_LOWEST \<or> cid c = p")
    case True
    with 2(1,2,5) show ?thesis by (auto split: if_splits prod.splits)
  next
    case False
    show ?thesis
    proof (cases "map_of (node_map s) (cid c)")
      case None
      with False 2(3) [OF _ _ _ None] 2(5) show ?thesis by (auto split: prod.splits)
    next
      case (Some x2)
      with False 2(4) [OF _ _ _ Some] 2(5) show ?thesis by (auto split: prod.splits)
    qed
  qed
qed

lemma robust_prune_present_ids:
  assumes "map_of (node_map s) p = Some n"
  shows "\<exists>pn. set pn \<subseteq> cid ` set cs \<and> fst (robust_prune s p cs alpha) = set_neighbors s p n pn"
proof -
  obtain ret pn cs' where pp: "prune_pass s p 1 [] cs = (ret, pn, cs')"
    by (cases "prune_pass s p 1 [] cs") auto
  from prune_pass_ids [OF pp] have l1: "set pn \<subseteq> cid ` set cs" by simp
  obtain ret2 pn2 cs2 where pp2: "prune_pass s p alpha pn cs' = (ret2, pn2, cs2)"
    by (cases "prune_pass s p alpha pn cs'") auto
  have "prune_pass s p alpha pn cs' = (ret2, pn, cs')" if "\<not> ret"
  proof -
    from pp that have "prune_pass s p 1 [] cs = (False, pn, cs')" by simp
    then have "\<forall>c \<in> set cs'. distance c = FLT_LOWEST \<or> cid c = p" by (rule prune_pass_unmarked)
    from prune_pass_all_marked [OF this, of s alpha pn] pp2 show ?thesis by auto
  qed
  with pp2 have "\<not> ret \<Longrightarrow> pn2 = pn" by simp
  with assms pp pp2 l1 show ?thesis by (cases ret) (auto simp: robust_prune_def)
qed

lemma ids_in_range_robust_prune:
  assumes "ids_in_range s" and "\<forall>c \<in> set cs. cid c < 4294967295"
  shows "ids_in_range (fst (robust_prune s p cs alpha))"
proof (cases "map_of (node_map s) p")
  case None
  with assms show ?thesis by (simp add: robust_prune_absent)
next
  case (Some n)
  from robust_prune_present_ids [OF Some, of cs alpha] obtain pn where
    pn: "set pn \<subseteq> cid ` set cs" "fst (robust_prune s p cs alpha) = set_neighbors s p n pn"
    by blast
  from pn(1) assms(2) have "\<forall>v \<in> set pn. v < 4294967295" by auto
  with assms(1) ids_in_range_key [OF assms(1) Some] show ?thesis
    unfolding pn(2) by (intro ids_in_range_set_neighbors) auto
qed

lemma ncandidates_of_ids:
  "cid ` set (ncandidates_of s ident v vec) \<subseteq> insert ident (set (neighbors v))"
  by (auto simp: ncandidates_of_def cand_def split: if_splits option.splits)

lemma ids_in_range_update_neighbors_loop:
  "ids_in_range s \<Longrightarrow> ident < 4294967295
     \<Longrightarrow> ids_in_range (update_neighbors_loop ident vec alpha ns s)"
proof (induction ns arbitrary: s)
  case Nil
  then show ?case by simp
next
  case (Cons a ns)
  show ?case
  proof (cases "map_of (node_map s) a")
    case None
    with Cons show ?thesis by simp
  next
    case (Some v)
    note k = ids_in_range_key [OF Cons.prems(1) Some]
    have c: "\<forall>c \<in> set (ncandidates_of s ident v vec). cid c < 4294967295"
      using ncandidates_of_ids [of s ident v vec] k Cons.prems(2) by auto
    have p: "ids_in_range (fst (robust_prune s a (ncandidates_of s ident v vec) alpha))"
      using ids_in_range_robust_prune [OF Cons.prems(1) c] .
    have f: "ids_in_range (set_neighbors s a v (neighbors v @ [ident]))"
      using Cons.prems k by (intro ids_in_range_set_neighbors) auto
    from Some Cons.IH [OF p Cons.prems(2)] Cons.IH [OF f Cons.prems(2)]
      Cons.IH [OF Cons.prems(1) Cons.prems(2)]
    show ?thesis by simp
  qed
qed

lemma greedy_search_ids:
  assumes "greedy_search s start q k L [] f = Some out" and "ids_in_range s"
  shows "\<forall>c \<in> set out. cid c < 4294967295"
proof
  fix c
  assume "c \<in> set out"
  with greedy_search_inv [OF assms(1)] have "cand_ok s q c" by (auto simp: list_all_iff)
  then obtain n where "map_of (node_map s) (cid c) = Some n"
    by (auto simp: cand_ok_def split: option.splits)
  from ids_in_range_key [OF assms(2) this] show "cid c < 4294967295" by simp
qed

lemma ids_in_range_try_emplace:
  "ids_in_range s \<Longrightarrow> ident < 4294967295
     \<Longrightarrow> ids_in_range (s\<lparr>node_map := try_emplace ident vec (node_map s)\<rparr>)"
  by (auto simp: ids_in_range_def try_emplace_def split: option.splits)

lemma ids_in_range_update_neighbors:
  "ids_in_range s \<Longrightarrow> ident < 4294967295 \<Longrightarrow> update_neighbors s ident vec alpha = Some s'
     \<Longrightarrow> ids_in_range s'"
  by (auto simp: update_neighbors_def ids_in_range_update_neighbors_loop split: option.splits)

lemma ids_in_range_insert:
  assumes "ids_in_range s" and "ident < 4294967295"
    and "vamana_insert s ident vec L alpha = Some s'"
  shows "ids_in_range s'"
proof -
  from assms(3) obtain s2 nn where
    t: "try_medoid_compute (s\<lparr>node_map := try_emplace ident vec (node_map s)\<rparr>) vec False = Some s2"
    and g: "greedy_search s2 (start_node s2) vec L L [] None = Some nn"
    and u: "update_neighbors (fst (robust_prune s2 ident nn alpha)) ident vec alpha = Some s'"
    by (auto simp: vamana_insert_def split: option.splits)
  have s2: "ids_in_range s2"
    using ids_in_range_try_emplace [OF assms(1,2), of vec]
      ids_in_range_cong [OF try_medoid_compute_frame(1) [OF t]] by simp
  have "ids_in_range (fst (robust_prune s2 ident nn alpha))"
    using ids_in_range_robust_prune [OF s2 greedy_search_ids [OF g s2]] .
  then show ?thesis using assms(2) u by (rule ids_in_range_update_neighbors)
qed

lemma ids_in_range_update:
  assumes "ids_in_range s" and "vamana_update s ident vec L alpha = Some s'"
  shows "ids_in_range s'"
proof (cases "map_of (node_map s) ident = None \<or> ident \<in> delete_list s")
  case True
  with assms show ?thesis by (auto simp: vamana_update_def split: option.splits)
next
  case False
  then obtain it where it: "map_of (node_map s) ident = Some it" by auto
  note k = ids_in_range_key [OF assms(1) it]
  define s1 where "s1 = s\<lparr>node_map := nm_update ident (it\<lparr>vector := vec\<rparr>) (node_map s)\<rparr>"
  from assms(2) it False obtain nn where
    g: "greedy_search s1 (start_node s1) vec L L [] None = Some nn"
    and u: "update_neighbors (fst (robust_prune s1 ident nn alpha)) ident vec alpha = Some s'"
    by (auto simp: vamana_update_def s1_def Let_def split: option.splits)
  have s1: "ids_in_range s1"
    using assms(1) k unfolding ids_in_range_def s1_def
    using set_nm_update [of ident "it\<lparr>vector := vec\<rparr>" "node_map s"] by auto
  have "ids_in_range (fst (robust_prune s1 ident nn alpha))"
    using ids_in_range_robust_prune [OF s1 greedy_search_ids [OF g s1]] .
  then show ?thesis using k u by (auto intro: ids_in_range_update_neighbors)
qed

lemma ids_in_range_batch_delete: "ids_in_range s \<Longrightarrow> ids_in_range (batch_delete s)"
  by (auto simp: ids_in_range_def batch_delete_def)

lemma set_dedup_from: "set (dedup_from seen xs) \<subseteq> set xs"
  by (induction xs arbitrary: seen) auto

lemma ids_in_range_patch_edges:
  assumes "ids_in_range s" and "\<forall>a \<in> set add. a < 4294967295"
    and "patch_edges s owner add = Some s'"
  shows "ids_in_range s'"
proof -
  from assms(3) obtain n where n: "map_of (node_map s) owner = Some n"
    by (auto simp: patch_edges_def split: option.splits)
  note k = ids_in_range_key [OF assms(1) n]
  define nbrs where "nbrs = dedup_vector (neighbors n @ add)"
  define s1 where "s1 = set_neighbors s owner n nbrs"
  have nb: "\<forall>v \<in> set nbrs. v < 4294967295"
    using set_dedup_from [of "{}" "neighbors n @ add"] k assms(2)
    by (auto simp: nbrs_def dedup_vector_def)
  have s1: "ids_in_range s1"
    unfolding s1_def using assms(1) k nb by (intro ids_in_range_set_neighbors) auto
  show ?thesis
  proof (cases "length nbrs > R s")
    case False
    with assms(3) n have "s' = s1" by (auto simp: patch_edges_def Let_def nbrs_def s1_def)
    with s1 show ?thesis by simp
  next
    case True
    define cs where "cs = sort_key distance
        (concat (map (\<lambda>v. case map_of (node_map s1) v of
                             None \<Rightarrow> []
                           | Some vn \<Rightarrow> [cand v (compute (metric s) (vector vn) (vector n) (dims s))])
                  nbrs))"
    from True assms(3) n have s': "s' = fst (robust_prune s1 owner cs (5033165 / 4194304))"
      by (auto simp: patch_edges_def Let_def nbrs_def s1_def cs_def)
    have "\<forall>c \<in> set cs. cid c < 4294967295"
      using nb by (auto simp: cs_def cand_def split: option.splits)
    from ids_in_range_robust_prune [OF s1 this] show ?thesis by (simp add: s')
  qed
qed

lemma select_top_c_ids:
  assumes "select_top_c s ident sr anchor = Some out"
  shows "set out \<subseteq> cid ` set sr"
proof -
  from assms obtain a where a: "map_of (node_map s) anchor = Some a"
    by (auto simp: select_top_c_def split: option.splits)
  define buf where "buf = concat (map (\<lambda>c.
                         if cid c = ident then []
                         else (case map_of (node_map s) (cid c) of
                                 None \<Rightarrow> []
                               | Some cn \<Rightarrow>
                                   [(compute (metric s) (vector a) (vector cn) (dims s), cid c)]))
                       sr)"
  from assms a have out: "out = map snd (take (min 3 (length buf)) (sort_key fst buf))"
    by (simp add: select_top_c_def Let_def buf_def)
  have "snd ` set buf \<subseteq> cid ` set sr"
    by (auto simp: buf_def split: if_splits option.splits)
  moreover have "set (take (min 3 (length buf)) (sort_key fst buf)) \<subseteq> set buf"
    using set_take_subset [of "min 3 (length buf)" "sort_key fst buf"] by simp
  ultimately show ?thesis unfolding out by auto
qed

lemma ids_in_range_patch_in_neighbors:
  "ids_in_range s \<Longrightarrow> \<forall>c \<in> set sr. cid c < 4294967295
     \<Longrightarrow> patch_in_neighbors ident sr zs s = Some s' \<Longrightarrow> ids_in_range s'"
proof (induction zs arbitrary: s)
  case Nil
  then show ?case by simp
next
  case (Cons z zs)
  show ?case
  proof (cases "map_of (node_map s) z")
    case None
    with Cons show ?thesis by simp
  next
    case (Some zn)
    with Cons.prems(3) obtain scratch s1 where
      sc: "select_top_c s ident sr z = Some scratch"
      and pe: "patch_edges s z scratch = Some s1"
      and rest: "patch_in_neighbors ident sr zs s1 = Some s'"
      by (auto split: option.splits)
    from select_top_c_ids [OF sc] Cons.prems(2) have "\<forall>a \<in> set scratch. a < 4294967295" by auto
    from ids_in_range_patch_edges [OF Cons.prems(1) this pe] Cons.IH Cons.prems(2) rest
    show ?thesis by blast
  qed
qed

lemma ids_in_range_patch_out_edges:
  "ids_in_range s \<Longrightarrow> w < 4294967295
     \<Longrightarrow> patch_out_edges w ys s = Some s' \<Longrightarrow> ids_in_range s'"
proof (induction ys arbitrary: s)
  case Nil
  then show ?case by simp
next
  case (Cons y ys)
  show ?case
  proof (cases "y = w \<or> map_of (node_map s) y = None")
    case True
    with Cons show ?thesis by auto
  next
    case False
    with Cons.prems(3) obtain s1 where
      pe: "patch_edges s y [w] = Some s1" and rest: "patch_out_edges w ys s1 = Some s'"
      by (auto split: option.splits)
    from ids_in_range_patch_edges [OF Cons.prems(1) _ pe] Cons.prems(2)
    have "ids_in_range s1" by simp
    with Cons.IH Cons.prems(2) rest show ?thesis by blast
  qed
qed

lemma ids_in_range_patch_out_neighbors:
  "ids_in_range s \<Longrightarrow> \<forall>w \<in> set ws. w < 4294967295
     \<Longrightarrow> patch_out_neighbors ident sr ws s = Some s' \<Longrightarrow> ids_in_range s'"
proof (induction ws arbitrary: s)
  case Nil
  then show ?case by simp
next
  case (Cons w ws)
  from Cons.prems(2) have w: "w < 4294967295" and ws: "\<forall>w \<in> set ws. w < 4294967295" by auto
  show ?case
  proof (cases "map_of (node_map s) w")
    case None
    with Cons.prems Cons.IH [OF Cons.prems(1) ws] show ?thesis by simp
  next
    case (Some wn)
    with Cons.prems(3) obtain scratch where sc: "select_top_c s ident sr w = Some scratch"
      by (auto split: option.splits)
    show ?thesis
    proof (cases "scratch = []")
      case True
      with Some sc Cons.prems Cons.IH [OF Cons.prems(1) ws] show ?thesis by simp
    next
      case False
      with Some sc Cons.prems(3) obtain s1 where
        po: "patch_out_edges w scratch s = Some s1"
        and rest: "patch_out_neighbors ident sr ws s1 = Some s'"
        by (auto split: option.splits)
      from ids_in_range_patch_out_edges [OF Cons.prems(1) w po] Cons.IH ws rest
      show ?thesis by blast
    qed
  qed
qed

lemma ids_in_range_erase_node: "ids_in_range s \<Longrightarrow> ids_in_range (erase_node s ident vec)"
  by (auto simp: ids_in_range_def erase_node_def nm_erase_def)

lemma ids_in_range_restart_at_begin [simp]:
  "ids_in_range (restart_at_begin s ident) = ids_in_range s"
  by (rule ids_in_range_cong) (simp add: restart_at_begin_def split: list.splits)

lemma ids_in_range_repair_start_node:
  "repair_start_node s ident = Some s' \<Longrightarrow> ids_in_range s' = ids_in_range s"
  by (rule ids_in_range_cong)
     (auto simp: repair_start_node_def split: if_splits list.splits prod.splits option.splits)

text \<open>
  The states of \<open>remove\<close> before its book-keeping: the search result and the index after
  the two patch loops.
\<close>

lemma vamana_remove_patched:
  assumes "vamana_remove s ident = Some s'" and "map_of (node_map s) ident = Some it"
  shows "\<exists>sr. greedy_search s (start_node s) (vector it) 50 128 [] None = Some sr
           \<and> ((approx_in_of s ident sr = [] \<and> neighbors it = []
                 \<and> s' = restart_at_begin (erase_node s ident (vector it)) ident)
              \<or> (\<exists>s4 (it4::vamana_node_t) s5 (it5::vamana_node_t).
                    patch_in_neighbors ident sr (approx_in_of s ident sr) s = Some s4
                    \<and> map_of (node_map s4) ident = Some it4
                    \<and> patch_out_neighbors ident sr (neighbors it4) s4 = Some s5
                    \<and> repair_start_node (erase_node s5 ident (vector it5)) ident = Some s'))"
proof -
  from assms obtain sr where
    sr: "greedy_search s (start_node s) (vector it) 50 128 [] None = Some sr"
    by (auto simp: vamana_remove_def split: option.splits)
  show ?thesis
  proof (cases "approx_in_of s ident sr = [] \<and> neighbors it = []")
    case True
    with assms sr show ?thesis by (auto simp: vamana_remove_def)
  next
    case False
    with assms sr have
      "\<exists>s4 (it4::vamana_node_t) s5 (it5::vamana_node_t).
         patch_in_neighbors ident sr (approx_in_of s ident sr) s = Some s4
         \<and> map_of (node_map s4) ident = Some it4
         \<and> patch_out_neighbors ident sr (neighbors it4) s4 = Some s5
         \<and> repair_start_node (erase_node s5 ident (vector it5)) ident = Some s'"
      by (simp add: vamana_remove_def split: option.splits) blast
    with sr show ?thesis by blast
  qed
qed

lemma ids_in_range_remove:
  assumes "ids_in_range s" and "vamana_remove s ident = Some s'"
  shows "ids_in_range s'"
proof (cases "map_of (node_map s) ident")
  case None
  with assms show ?thesis by (simp add: vamana_remove_def)
next
  case (Some it)
  from vamana_remove_patched [OF assms(2) Some] obtain sr where
    sr: "greedy_search s (start_node s) (vector it) 50 128 [] None = Some sr"
    and alt: "(approx_in_of s ident sr = [] \<and> neighbors it = []
                 \<and> s' = restart_at_begin (erase_node s ident (vector it)) ident)
              \<or> (\<exists>s4 (it4::vamana_node_t) s5 (it5::vamana_node_t).
                    patch_in_neighbors ident sr (approx_in_of s ident sr) s = Some s4
                    \<and> map_of (node_map s4) ident = Some it4
                    \<and> patch_out_neighbors ident sr (neighbors it4) s4 = Some s5
                    \<and> repair_start_node (erase_node s5 ident (vector it5)) ident = Some s')"
    by blast
  note srr = greedy_search_ids [OF sr assms(1)]
  from alt show ?thesis
  proof
    assume "approx_in_of s ident sr = [] \<and> neighbors it = []
                 \<and> s' = restart_at_begin (erase_node s ident (vector it)) ident"
    with assms(1) show ?thesis by (simp add: ids_in_range_erase_node)
  next
    assume "\<exists>s4 (it4::vamana_node_t) s5 (it5::vamana_node_t).
                    patch_in_neighbors ident sr (approx_in_of s ident sr) s = Some s4
                    \<and> map_of (node_map s4) ident = Some it4
                    \<and> patch_out_neighbors ident sr (neighbors it4) s4 = Some s5
                    \<and> repair_start_node (erase_node s5 ident (vector it5)) ident = Some s'"
    then obtain s4 and it4 :: vamana_node_t and s5 and it5 :: vamana_node_t where
      s4: "patch_in_neighbors ident sr (approx_in_of s ident sr) s = Some s4"
      and it4: "map_of (node_map s4) ident = Some it4"
      and s5: "patch_out_neighbors ident sr (neighbors it4) s4 = Some s5"
      and fin: "repair_start_node (erase_node s5 ident (vector it5)) ident = Some s'"
      by blast
    have r4: "ids_in_range s4" using ids_in_range_patch_in_neighbors [OF assms(1) srr s4] .
    have "\<forall>w \<in> set (neighbors it4). w < 4294967295"
      using ids_in_range_key [OF r4 it4] by simp
    from ids_in_range_patch_out_neighbors [OF r4 this s5] have "ids_in_range s5" .
    then have "ids_in_range (erase_node s5 ident (vector it5))" by (rule ids_in_range_erase_node)
    with ids_in_range_repair_start_node [OF fin] show ?thesis by simp
  qed
qed

lemma ids_in_range_init: "ids_in_range (Vamana_init r m d)"
  by (simp add: ids_in_range_def Vamana_init_def)

section \<open>The operations return\<close>

text \<open>
  With a beam width of at least one the search never reads the top of an empty queue,
  with every id below \<open>2^32 - 1\<close> the visited set never reads beyond its flags, and the
  lookups with \<open>at()\<close> find their key.
\<close>

lemma accept_candidate_returns:
  "0 < L \<Longrightarrow> \<exists>r m. accept_candidate s L f nn results maxd = Some (r, m)"
  by (cases results) (auto simp: accept_candidate_def Let_def)

lemma mark_returns: "ident < 4294967295 \<Longrightarrow> \<exists>b v'. mark v ident = Some (b, v')"
  by (auto simp: mark_def ensure_capacity_def resize_def Let_def)

lemma visit_neighbors_returns:
  "\<forall>i \<in> set ids. i < 4294967295 \<Longrightarrow> \<exists>r. visit_neighbors s q ids (cs, vs) = Some r"
proof (induction ids arbitrary: cs vs)
  case Nil
  show ?case by simp
next
  case (Cons i ids)
  from Cons.prems mark_returns [of i vs] obtain b v1 where m: "mark vs i = Some (b, v1)" by auto
  from Cons.prems have "\<forall>i \<in> set ids. i < 4294967295" by simp
  note ih = Cons.IH [OF this]
  from m ih [of cs v1] ih [of _ v1] show ?case
    by (cases "map_of (node_map s) i") auto
qed

lemma gs_loop_returns:
  "0 < L \<Longrightarrow> ids_in_range s \<Longrightarrow> \<exists>r. gs_loop s q L f cands results visited maxd = Some r"
proof (induction s q L f cands results visited maxd rule: gs_loop.induct)
  case (1 s query L filter_fn results visited max_distance)
  then show ?case by simp
next
  case (2 s query L filter_fn nn rest results visited max_distance)
  from accept_candidate_returns [OF 2(3)]
  obtain r m where acc: "accept_candidate s L filter_fn nn results max_distance = Some (r, m)"
    by blast
  show ?case
  proof (cases "max_distance < distance nn")
    case True
    then show ?thesis by simp
  next
    case False
    show ?thesis
    proof (cases "map_of (node_map s) (cid nn)")
      case None
      with False acc 2(1) [OF False acc _ None] 2(3,4) show ?thesis by simp
    next
      case (Some nd)
      from ids_in_range_key [OF 2(4) Some]
      have "\<forall>i \<in> set (neighbors nd). i < 4294967295" by simp
      from visit_neighbors_returns [OF this, of s query rest visited]
      obtain c' v' where vn: "visit_neighbors s query (neighbors nd) (rest, visited) = Some (c', v')"
        by auto
      with False acc Some 2(2) [OF False acc _ Some vn] 2(3,4) show ?thesis by simp
    qed
  qed
qed

lemma greedy_search_returns:
  assumes "0 < L" and "ids_in_range s"
  shows "\<exists>out'. greedy_search s start q k L out f = Some out'"
proof (cases "map_of (node_map s) start")
  case None
  then show ?thesis by (simp add: greedy_search_def)
next
  case (Some n)
  from ids_in_range_key [OF assms(2) Some] mark_returns
  obtain b v where m: "mark (acquire (length (node_map s))) start = Some (b, v)" by blast
  from gs_loop_returns [OF assms]
  obtain r where "gs_loop s q L f [cand start (compute (metric s) (vector n) q (dims s))]
                    [] v FLT_MAX = Some r"
    by blast
  with Some m show ?thesis by (simp add: greedy_search_def)
qed

lemma try_medoid_compute_returns:
  assumes "ids_in_range s"
  shows "\<exists>s'. try_medoid_compute s point force = Some s'"
proof -
  define s1 where "s1 = s\<lparr>medoid_tracker := medoid_add point (medoid_tracker s)\<rparr>"
  obtain c m where cm: "centroid (medoid_tracker s1) = (c, m)"
    by (cases "centroid (medoid_tracker s1)") auto
  have "ids_in_range (s1\<lparr>medoid_tracker := m\<rparr>)"
    using assms by (simp add: ids_in_range_def s1_def)
  then have "\<exists>out'. greedy_search (s1\<lparr>medoid_tracker := m\<rparr>)
            (start_node (s1\<lparr>medoid_tracker := m\<rparr>)) c 1 64 [] None = Some out'"
    by (intro greedy_search_returns) simp_all
  then obtain res where "greedy_search (s1\<lparr>medoid_tracker := m\<rparr>)
            (start_node (s1\<lparr>medoid_tracker := m\<rparr>)) c 1 64 [] None = Some res"
    by blast
  with cm show ?thesis
    unfolding try_medoid_compute_def Let_def s1_def [symmetric]
    by (cases res) auto
qed

lemma vamana_insert_returns:
  assumes "0 < L" and "ids_in_range s" and "ident < 4294967295"
  shows "\<exists>s'. vamana_insert s ident vec L alpha = Some s'"
proof -
  have e: "ids_in_range (s\<lparr>node_map := try_emplace ident vec (node_map s)\<rparr>)"
    using assms(2,3) by (rule ids_in_range_try_emplace)
  obtain s2 where t: "try_medoid_compute (s\<lparr>node_map := try_emplace ident vec (node_map s)\<rparr>) vec False = Some s2"
    using try_medoid_compute_returns [OF e] by blast
  have s2: "ids_in_range s2"
    using e ids_in_range_cong [OF try_medoid_compute_frame(1) [OF t]] by simp
  obtain nn where g: "greedy_search s2 (start_node s2) vec L L [] None = Some nn"
    using greedy_search_returns [OF assms(1) s2] by blast
  have "map_of (node_map s2) ident \<noteq> None"
    using try_medoid_compute_frame(1) [OF t] by (simp add: map_of_try_emplace)
  then have "map_of (node_map (fst (robust_prune s2 ident nn alpha))) ident \<noteq> None"
    by (simp add: robust_prune_dom)
  from update_neighbors_returns [OF this] t g show ?thesis
    by (simp add: vamana_insert_def)
qed

lemma vamana_update_returns:
  assumes "0 < L" and "ids_in_range s"
  shows "\<exists>s'. vamana_update s ident vec L alpha = Some s'"
proof (cases "map_of (node_map s) ident")
  case None
  then show ?thesis by (simp add: vamana_update_def)
next
  case (Some it)
  note k = ids_in_range_key [OF assms(2) Some]
  define s1 where "s1 = s\<lparr>node_map := nm_update ident (it\<lparr>vector := vec\<rparr>) (node_map s)\<rparr>"
  have s1: "ids_in_range s1"
    using assms(2) k unfolding ids_in_range_def s1_def
    using set_nm_update [of ident "it\<lparr>vector := vec\<rparr>" "node_map s"] by auto
  obtain nn where g: "greedy_search s1 (start_node s1) vec L L [] None = Some nn"
    using greedy_search_returns [OF assms(1) s1] by blast
  have "map_of (node_map s1) ident \<noteq> None" by (simp add: s1_def map_of_nm_update)
  then have "map_of (node_map (fst (robust_prune s1 ident nn alpha))) ident \<noteq> None"
    by (simp add: robust_prune_dom)
  from update_neighbors_returns [OF this] Some g show ?thesis
    by (auto simp: vamana_update_def s1_def [symmetric] Let_def)
qed

lemma patch_edges_returns:
  "map_of (node_map s) owner \<noteq> None \<Longrightarrow> \<exists>s'. patch_edges s owner add = Some s'"
  by (auto simp: patch_edges_def Let_def)

lemma select_top_c_returns:
  "map_of (node_map s) anchor \<noteq> None \<Longrightarrow> \<exists>out. select_top_c s ident sr anchor = Some out"
  by (auto simp: select_top_c_def Let_def)

lemma patch_edges_dom:
  assumes "patch_edges s owner add = Some s'"
  shows "(map_of (node_map s') k = None) = (map_of (node_map s) k = None)"
proof -
  from assms obtain n where n: "map_of (node_map s) owner = Some n"
    by (auto simp: patch_edges_def split: option.splits)
  have "(map_of (node_map (set_neighbors s owner n nbrs)) k = None) = (map_of (node_map s) k = None)"
    for nbrs using n by (auto simp: map_of_nm_update)
  with assms n show ?thesis
    by (auto simp: patch_edges_def Let_def robust_prune_dom split: if_splits)
qed

lemma patch_in_neighbors_returns: "\<exists>s'. patch_in_neighbors ident sr zs s = Some s'"
proof (induction zs arbitrary: s)
  case Nil
  show ?case by simp
next
  case (Cons z zs)
  show ?case
  proof (cases "map_of (node_map s) z")
    case None
    with Cons show ?thesis by simp
  next
    case (Some zn)
    then obtain out where o: "select_top_c s ident sr z = Some out"
      using select_top_c_returns [of s z ident sr] by auto
    from Some obtain s1 where p: "patch_edges s z out = Some s1"
      using patch_edges_returns [of s z out] by auto
    from Some o p Cons [of s1] show ?thesis by simp
  qed
qed

lemma patch_in_neighbors_dom:
  "patch_in_neighbors ident sr zs s = Some s'
     \<Longrightarrow> (map_of (node_map s') k = None) = (map_of (node_map s) k = None)"
proof (induction zs arbitrary: s)
  case Nil
  then show ?case by simp
next
  case (Cons z zs)
  then show ?case
    by (auto split: option.splits simp: patch_edges_dom)
qed

lemma patch_out_edges_returns: "\<exists>s'. patch_out_edges w ys s = Some s'"
proof (induction ys arbitrary: s)
  case Nil
  show ?case by simp
next
  case (Cons y ys)
  show ?case
  proof (cases "y = w \<or> map_of (node_map s) y = None")
    case True
    with Cons show ?thesis by auto
  next
    case False
    then obtain s1 where p: "patch_edges s y [w] = Some s1"
      using patch_edges_returns [of s y "[w]"] by auto
    from False p Cons [of s1] show ?thesis by auto
  qed
qed

lemma patch_out_edges_dom:
  "patch_out_edges w ys s = Some s'
     \<Longrightarrow> (map_of (node_map s') k = None) = (map_of (node_map s) k = None)"
proof (induction ys arbitrary: s)
  case Nil
  then show ?case by simp
next
  case (Cons y ys)
  then show ?case
    by (auto split: option.splits if_splits simp: patch_edges_dom)
qed

lemma patch_out_neighbors_returns: "\<exists>s'. patch_out_neighbors ident sr ws s = Some s'"
proof (induction ws arbitrary: s)
  case Nil
  show ?case by simp
next
  case (Cons w ws)
  show ?case
  proof (cases "map_of (node_map s) w")
    case None
    with Cons show ?thesis by simp
  next
    case (Some wn)
    then obtain out where o: "select_top_c s ident sr w = Some out"
      using select_top_c_returns [of s w ident sr] by auto
    obtain s1 where p: "patch_out_edges w out s = Some s1"
      using patch_out_edges_returns by blast
    from Some o p Cons [of s1] Cons [of s] show ?thesis by simp
  qed
qed

lemma patch_out_neighbors_dom:
  "patch_out_neighbors ident sr ws s = Some s'
     \<Longrightarrow> (map_of (node_map s') k = None) = (map_of (node_map s) k = None)"
proof (induction ws arbitrary: s)
  case Nil
  then show ?case by simp
next
  case (Cons w ws)
  then show ?case
    by (auto split: option.splits if_splits simp: patch_out_edges_dom)
qed

lemma repair_start_node_returns:
  assumes "ids_in_range s"
  shows "\<exists>s'. repair_start_node s ident = Some s'"
proof (cases "start_node s = ident")
  case False
  then show ?thesis by (simp add: repair_start_node_def)
next
  case True
  show ?thesis
  proof (cases "node_map s")
    case Nil
    with True show ?thesis by (simp add: repair_start_node_def)
  next
    case (Cons b bs)
    obtain c m where cm: "centroid (medoid_tracker s) = (c, m)"
      by (cases "centroid (medoid_tracker s)") auto
    have "ids_in_range (s\<lparr>medoid_tracker := m\<rparr>)" using assms by (simp add: ids_in_range_def)
    then obtain res where "greedy_search (s\<lparr>medoid_tracker := m\<rparr>) (fst b) c 1 64 [] None = Some res"
      using greedy_search_returns [of 64] by force
    with True Cons cm show ?thesis
      by (cases res) (auto simp: repair_start_node_def)
  qed
qed

lemma vamana_remove_returns:
  assumes "ids_in_range s"
  shows "\<exists>s'. vamana_remove s ident = Some s'"
proof (cases "map_of (node_map s) ident")
  case None
  then show ?thesis by (simp add: vamana_remove_def)
next
  case (Some it)
  obtain sr where sr: "greedy_search s (start_node s) (vector it) 50 128 [] None = Some sr"
    using greedy_search_returns [of 128, OF _ assms] by force
  note srr = greedy_search_ids [OF sr assms]
  show ?thesis
  proof (cases "approx_in_of s ident sr = [] \<and> neighbors it = []")
    case True
    with Some sr show ?thesis by (simp add: vamana_remove_def)
  next
    case False
    obtain s4 where s4: "patch_in_neighbors ident sr (approx_in_of s ident sr) s = Some s4"
      using patch_in_neighbors_returns by blast
    then obtain it4 where it4: "map_of (node_map s4) ident = Some it4"
      using patch_in_neighbors_dom [OF s4, of ident] Some by auto
    have r4: "ids_in_range s4" using ids_in_range_patch_in_neighbors [OF assms srr s4] .
    obtain s5 where s5: "patch_out_neighbors ident sr (neighbors it4) s4 = Some s5"
      using patch_out_neighbors_returns by blast
    then obtain it5 where it5: "map_of (node_map s5) ident = Some it5"
      using patch_out_neighbors_dom [OF s5, of ident] it4 by auto
    have "\<forall>w \<in> set (neighbors it4). w < 4294967295"
      using ids_in_range_key [OF r4 it4] by simp
    from ids_in_range_patch_out_neighbors [OF r4 this s5]
    have "ids_in_range (erase_node s5 ident (vector it5))" by (rule ids_in_range_erase_node)
    from repair_start_node_returns [OF this]
    obtain s' where "repair_start_node (erase_node s5 ident (vector it5)) ident = Some s'"
      by blast
    with Some sr False s4 it4 s5 it5 show ?thesis by (simp add: vamana_remove_def)
  qed
qed

section \<open>The L2 kernel\<close>

lemma fold_sq_nonneg:
  "0 \<le> acc \<Longrightarrow> 0 \<le> fold (\<lambda>i dist. dist + (a ! i - b ! i) * (a ! i - b ! i)) xs (acc::real)"
  by (induction xs arbitrary: acc) auto

lemma fold_sq_self:
  "fold (\<lambda>i dist. dist + (a ! i - a ! i) * (a ! i - a ! i)) xs (acc::real) = acc"
  by (induction xs arbitrary: acc) auto

lemma lanes_nonneg:
  "\<forall>j<8. 0 \<le> acc ! j \<Longrightarrow> j < 8 \<Longrightarrow>
   0 \<le> fold (\<lambda>blk acc. map (\<lambda>j. acc ! j + (a ! (8 * blk + j) - b ! (8 * blk + j)) * (a ! (8 * blk + j) - b ! (8 * blk + j))) [0..<8])
          blks (acc::real list) ! j"
proof (induction blks arbitrary: acc)
  case Nil
  then show ?case by simp
next
  case (Cons blk blks)
  show ?case
    unfolding fold_simps
  proof (rule Cons.IH)
    show "\<forall>j<8. 0 \<le> map (\<lambda>j. acc ! j + (a ! (8 * blk + j) - b ! (8 * blk + j)) * (a ! (8 * blk + j) - b ! (8 * blk + j))) [0..<8] ! j"
      using Cons.prems(1) by (auto simp del: upt_Suc simp: nth_map_upt)
    show "j < 8" by fact
  qed
qed

lemma lanes_self:
  "\<forall>j<8. acc ! j = 0 \<Longrightarrow> j < 8 \<Longrightarrow>
   fold (\<lambda>blk acc. map (\<lambda>j. acc ! j + (a ! (8 * blk + j) - a ! (8 * blk + j)) * (a ! (8 * blk + j) - a ! (8 * blk + j))) [0..<8])
          blks (acc::real list) ! j = 0"
proof (induction blks arbitrary: acc)
  case Nil
  then show ?case by simp
next
  case (Cons blk blks)
  show ?case
    unfolding fold_simps
  proof (rule Cons.IH)
    show "\<forall>j<8. map (\<lambda>j. acc ! j + (a ! (8 * blk + j) - a ! (8 * blk + j)) * (a ! (8 * blk + j) - a ! (8 * blk + j))) [0..<8] ! j = 0"
      using Cons.prems(1) by (auto simp del: upt_Suc simp: nth_map_upt)
    show "j < 8" by fact
  qed
qed

lemma l2_distance_nonneg: "0 \<le> l2_distance a b d"
proof -
  have l: "0 \<le> l2_lanes a b n ! j" if "j < 8" for n j
    unfolding l2_lanes_def using that by (intro lanes_nonneg) auto
  have "0 \<le> l2_lanes a b n ! 0 + l2_lanes a b n ! 1 + l2_lanes a b n ! 2 + l2_lanes a b n ! 3
             + l2_lanes a b n ! 4 + l2_lanes a b n ! 5 + l2_lanes a b n ! 6 + l2_lanes a b n ! 7" for n
    using l [of 0 n] l [of 1 n] l [of 2 n] l [of 3 n] l [of 4 n] l [of 5 n] l [of 6 n] l [of 7 n]
    by linarith
  then show ?thesis
    unfolding l2_distance_def Let_def by (intro fold_sq_nonneg) auto
qed

lemma l2_distance_self: "l2_distance a a d = 0"
proof -
  have l: "l2_lanes a a n ! j = 0" if "j < 8" for n j
    unfolding l2_lanes_def using that by (intro lanes_self) auto
  show ?thesis
    unfolding l2_distance_def Let_def fold_sq_self by (simp add: l)
qed

lemma compute_L2_nonneg: "0 \<le> compute L2 a b d"
  by (simp add: l2_distance_nonneg)

lemma compute_L2_self: "compute L2 a a d = 0"
  by (simp add: l2_distance_self)

section \<open>Searching for a stored vector\<close>

text \<open>
  Under the L2 metric no distance is negative, so a result at distance 0 is never the
  worst of a full result queue that a nearer candidate displaces.
\<close>

lemma sorted_last_max:
  "sorted (map f xs) \<Longrightarrow> x \<in> set xs \<Longrightarrow> (f x :: real) \<le> f (last xs)"
  by (induction xs) (auto split: if_splits)

lemma accept_keeps_zero:
  assumes acc: "accept_candidate s L None nn results maxd = Some (r, m)"
    and z: "z \<in> set results" "distance z = 0"
    and nn: "0 \<le> distance nn"
  shows "z \<in> set r"
proof (cases "(length results < L \<or> distance nn < distance (hd results)) \<and> cid nn \<notin> delete_list s")
  case False
  with acc z show ?thesis by (auto simp: accept_candidate_def split: if_splits)
next
  case True
  from z obtain h t where ht: "results = h # t" by (cases results) auto
  from acc True
  have r: "r = (if length (push_max nn results) > L then tl (push_max nn results) else push_max nn results)"
    by (auto simp: accept_candidate_def Let_def split: if_splits)
  show ?thesis
  proof (cases "length (push_max nn results) > L")
    case False
    with r z show ?thesis by (simp add: push_max_def set_insort_key)
  next
    case over: True
    then have "\<not> length results < L" by (simp add: push_max_def)
    with True have lt: "distance nn < distance h" by (simp add: ht)
    then have "push_max nn results = h # insort_key (\<lambda>x. - distance x) nn t"
      by (simp add: push_max_def ht)
    with r over have r': "r = insort_key (\<lambda>x. - distance x) nn t" by simp
    from lt nn z(2) have "z \<noteq> h" by auto
    with z(1) ht have "z \<in> set t" by simp
    then show ?thesis by (simp add: r' set_insort_key)
  qed
qed

lemma gs_loop_keeps_zero:
  "gs_loop s q L f cands results visited maxd = Some r
     \<Longrightarrow> f = None
     \<Longrightarrow> metric s = L2
     \<Longrightarrow> list_all (cand_ok s q) cands
     \<Longrightarrow> z \<in> set results \<Longrightarrow> distance z = 0
     \<Longrightarrow> z \<in> set r"
proof (induction s q L f cands results visited maxd rule: gs_loop.induct)
  case (1 s query L filter_fn results visited max_distance)
  then show ?case by simp
next
  case (2 s query L filter_fn nn rest results visited max_distance)
  show ?case
  proof (cases "max_distance < distance nn")
    case True
    with 2 show ?thesis by simp
  next
    case False
    with 2(3) obtain r1 m1 where
      acc: "accept_candidate s L filter_fn nn results max_distance = Some (r1, m1)"
      by (auto split: option.splits)
    from 2(6) have nn: "cand_ok s query nn" and rest: "list_all (cand_ok s query) rest" by auto
    from nn 2(5) have "0 \<le> distance nn"
      by (auto simp: cand_ok_def l2_distance_nonneg split: option.splits)
    with acc 2(4) 2(7) 2(8) have z1: "z \<in> set r1" using accept_keeps_zero by blast
    show ?thesis
    proof (cases "map_of (node_map s) (cid nn)")
      case None
      with False acc 2(3) have "gs_loop s query L filter_fn rest r1 visited m1 = Some r" by simp
      from 2(1) [OF False acc _ None this 2(4) 2(5) rest z1 2(8)] show ?thesis by simp
    next
      case (Some nd)
      with False acc 2(3) obtain c' v' where
        vn: "visit_neighbors s query (neighbors nd) (rest, visited) = Some (c', v')"
        and g: "gs_loop s query L filter_fn c' r1 v' m1 = Some r"
        by (auto split: option.splits)
      have c': "list_all (cand_ok s query) c'" using visit_neighbors_cand_ok [OF rest vn] .
      from 2(2) [OF False acc _ Some vn _ g 2(4) 2(5) c' z1 2(8)] show ?thesis by simp
    qed
  qed
qed

lemma self_search:
  assumes m: "metric s = L2" and n: "map_of (node_map s) i = Some n" and live: "i \<notin> delete_list s"
    and k: "1 \<le> k" "k \<le> L" and range: "ids_in_range s"
  shows "\<exists>r rs. greedy_search s i (vector n) k L [] None = Some (r # rs) \<and> distance r = 0
           \<and> ((\<forall>u m. u \<noteq> i \<and> map_of (node_map s) u = Some m
                  \<longrightarrow> compute L2 (vector m) (vector n) (dims s) \<noteq> 0) \<longrightarrow> cid r = i)"
proof -
  define q where "q = vector n"
  define z where "z = cand i 0"
  have L: "0 < L" using k by simp
  obtain out where out: "greedy_search s i q k L [] None = Some out"
    using greedy_search_returns [OF L range] by blast
  have start: "cand i (compute (metric s) (vector n) q (dims s)) = z"
    by (simp add: z_def q_def m l2_distance_self)
  from out n start obtain v0 r where
    r: "gs_loop s q L None [z] [] v0 FLT_MAX = Some r" and o: "out = take k (rev r)"
    by (auto simp: greedy_search_def split: option.splits)
  have zok: "cand_ok s q z"
    using n by (simp add: cand_ok_def z_def cand_def q_def m l2_distance_self)
  have dz: "distance z = 0" "cid z = i" by (simp_all add: z_def cand_def)
  have acc: "accept_candidate s L None z [] FLT_MAX = Some ([z], if 1 = L then 0 else FLT_MAX)"
    using L live dz by (auto simp: accept_candidate_def push_max_def Let_def)
  have nf: "\<not> FLT_MAX < distance z" by (simp add: dz FLT_MAX_def)
  from r nf acc n dz obtain c' v' where
    vn: "visit_neighbors s q (neighbors n) ([], v0) = Some (c', v')"
    and g: "gs_loop s q L None c' [z] v' (if 1 = L then 0 else FLT_MAX) = Some r"
    by (auto split: option.splits)
  have c': "list_all (cand_ok s q) c'" using visit_neighbors_cand_ok [OF _ vn] by simp
  have zr: "z \<in> set r"
    using gs_loop_keeps_zero [OF g refl m c' _ dz(1)] by simp
  from gs_loop_inv [OF r] zok
  have sr: "sorted (map (\<lambda>x. - distance x) r)"
    and ar: "list_all (\<lambda>c. cand_ok s q c \<and> result_ok s None c) r" by auto
  from zr have ne: "r \<noteq> []" by auto
  then have rv: "rev r = last r # rev (butlast r)"
    by (metis append_butlast_last_id rev.simps(2) rev_append rev_rev_ident append_Nil rev_singleton_conv)
  with o k have oo: "out = last r # take (k - 1) (rev (butlast r))"
    by (cases k) auto
  have lr: "last r \<in> set r" using ne by simp
  with ar have lok: "cand_ok s q (last r)" by (auto simp: list_all_iff)
  then obtain nl where nl: "map_of (node_map s) (cid (last r)) = Some nl"
    "distance (last r) = compute L2 (vector nl) q (dims s)"
    by (auto simp: cand_ok_def m split: option.splits)
  have "- distance z \<le> - distance (last r)" using sorted_last_max [OF sr zr] .
  with dz nl(2) compute_L2_nonneg [of "vector nl" q "dims s"] have d0: "distance (last r) = 0"
    by simp
  have "cid (last r) = i"
    if "\<forall>u m. u \<noteq> i \<and> map_of (node_map s) u = Some m \<longrightarrow> compute L2 (vector m) q (dims s) \<noteq> 0"
    using that nl d0 by auto
  with out oo d0 show ?thesis unfolding q_def by blast
qed

lemma update_neighbors_frame:
  assumes "update_neighbors s ident vec alpha = Some s'"
  shows "metric s' = metric s" "dims s' = dims s" "delete_list s' = delete_list s"
    "map_option vector (map_of (node_map s') k) = map_option vector (map_of (node_map s) k)"
  using assms
  by (auto simp: update_neighbors_def update_neighbors_loop_vectors split: option.splits)

lemma insert_fresh:
  assumes fresh: "map_of (node_map s) ident = None"
    and ins: "vamana_insert s ident vec L alpha = Some s'"
  shows "metric s' = metric s" "dims s' = dims s" "delete_list s' = delete_list s"
    "\<exists>n. map_of (node_map s') ident = Some n \<and> vector n = vec"
proof -
  from ins obtain s2 nn where
    t: "try_medoid_compute (s\<lparr>node_map := try_emplace ident vec (node_map s)\<rparr>) vec False = Some s2"
    and u: "update_neighbors (fst (robust_prune s2 ident nn alpha)) ident vec alpha = Some s'"
    by (auto simp: vamana_insert_def split: option.splits)
  note f = try_medoid_compute_frame [OF t] and g = update_neighbors_frame [OF u]
  show "metric s' = metric s" "dims s' = dims s" "delete_list s' = delete_list s"
    using f g by simp_all
  have "map_option vector (map_of (node_map s') ident) = Some vec"
    using g(4) [of ident] f(1) fresh by (simp add: robust_prune_vectors map_of_try_emplace)
  then show "\<exists>n. map_of (node_map s') ident = Some n \<and> vector n = vec" by auto
qed

section \<open>The keys of the node store\<close>

text \<open>
  No operation duplicates a key: the association list stays a map.
\<close>

lemma keys_nm_update:
  "map_of nm k \<noteq> None \<Longrightarrow> map fst (nm_update k v nm) = map fst nm"
  by (induction nm) (auto split: if_splits)

lemma keys_robust_prune:
  "map fst (node_map (fst (robust_prune s p cs alpha))) = map fst (node_map s)"
proof (cases "map_of (node_map s) p")
  case None
  then show ?thesis by (simp add: robust_prune_absent)
next
  case (Some n)
  from robust_prune_present [OF Some, of cs alpha] Some show ?thesis
    by (auto simp: keys_nm_update)
qed

lemma keys_update_neighbors_loop:
  "map fst (node_map (update_neighbors_loop ident vec alpha ns s)) = map fst (node_map s)"
proof (induction ns arbitrary: s)
  case Nil
  show ?case by simp
next
  case (Cons a ns)
  show ?case
  proof (cases "map_of (node_map s) a")
    case None
    with Cons show ?thesis by simp
  next
    case (Some v)
    with Cons [of "fst (robust_prune s a (ncandidates_of s ident v vec) alpha)"]
      Cons [of "set_neighbors s a v (neighbors v @ [ident])"] Cons [of s]
    show ?thesis by (simp add: keys_robust_prune keys_nm_update)
  qed
qed

lemma keys_patch_edges:
  "patch_edges s owner add = Some s' \<Longrightarrow> map fst (node_map s') = map fst (node_map s)"
  by (auto simp: patch_edges_def Let_def keys_robust_prune keys_nm_update
           split: option.splits if_splits)

lemma keys_patch_in_neighbors:
  "patch_in_neighbors ident sr zs s = Some s' \<Longrightarrow> map fst (node_map s') = map fst (node_map s)"
proof (induction zs arbitrary: s)
  case Nil
  then show ?case by simp
next
  case (Cons z zs)
  then show ?case by (auto split: option.splits dest: keys_patch_edges)
qed

lemma keys_patch_out_edges:
  "patch_out_edges w ys s = Some s' \<Longrightarrow> map fst (node_map s') = map fst (node_map s)"
proof (induction ys arbitrary: s)
  case Nil
  then show ?case by simp
next
  case (Cons y ys)
  then show ?case by (auto split: option.splits if_splits dest: keys_patch_edges)
qed

lemma keys_patch_out_neighbors:
  "patch_out_neighbors ident sr ws s = Some s' \<Longrightarrow> map fst (node_map s') = map fst (node_map s)"
proof (induction ws arbitrary: s)
  case Nil
  then show ?case by simp
next
  case (Cons w ws)
  then show ?case by (auto split: option.splits if_splits dest: keys_patch_out_edges)
qed

lemma keys_insert:
  assumes "vamana_insert s ident vec L alpha = Some s'"
  shows "map fst (node_map s') = map fst (try_emplace ident vec (node_map s))"
proof -
  from assms obtain s2 nn where
    t: "try_medoid_compute (s\<lparr>node_map := try_emplace ident vec (node_map s)\<rparr>) vec False = Some s2"
    and u: "update_neighbors (fst (robust_prune s2 ident nn alpha)) ident vec alpha = Some s'"
    by (auto simp: vamana_insert_def split: option.splits)
  from u try_medoid_compute_frame(1) [OF t] show ?thesis
    by (auto simp: update_neighbors_def keys_update_neighbors_loop keys_robust_prune
             split: option.splits)
qed

lemma keys_update:
  assumes "vamana_update s ident vec L alpha = Some s'"
  shows "map fst (node_map s') = map fst (node_map s)"
  using assms
  by (auto simp: vamana_update_def update_neighbors_def Let_def keys_update_neighbors_loop
        keys_robust_prune keys_nm_update split: option.splits if_splits)

lemma keys_batch_delete: "map fst (node_map (batch_delete s)) = map fst (node_map s)"
  by (simp add: batch_delete_def comp_def)

lemma keys_remove:
  assumes "vamana_remove s ident = Some s'"
  shows "map fst (node_map s') = map fst (node_map s)
         \<or> map fst (node_map s') = filter (\<lambda>k. k \<noteq> ident) (map fst (node_map s))"
proof (cases "map_of (node_map s) ident")
  case None
  with assms show ?thesis by (simp add: vamana_remove_def)
next
  case (Some it)
  have er: "map fst (node_map (erase_node t ident v)) = filter (\<lambda>k. k \<noteq> ident) (map fst (node_map t))"
    for t v by (simp add: erase_node_def nm_erase_def filter_map comp_def)
  have rb: "map fst (node_map (restart_at_begin t ident)) = map fst (node_map t)" for t
    by (simp add: restart_at_begin_def split: list.splits)
  have rp: "map fst (node_map t') = map fst (node_map t)"
    if "repair_start_node t ident = Some t'" for t t'
    using that
    by (auto simp: repair_start_node_def split: if_splits list.splits prod.splits option.splits)
  from assms Some obtain sr where
    sr: "greedy_search s (start_node s) (vector it) 50 128 [] None = Some sr"
    by (auto simp: vamana_remove_def split: option.splits)
  show ?thesis
  proof (cases "approx_in_of s ident sr = [] \<and> neighbors it = []")
    case True
    with assms Some sr show ?thesis by (auto simp: vamana_remove_def er rb)
  next
    case False
    with assms Some sr have
      "\<exists>s4 (it4::vamana_node_t) s5 (it5::vamana_node_t).
         patch_in_neighbors ident sr (approx_in_of s ident sr) s = Some s4
         \<and> patch_out_neighbors ident sr (neighbors it4) s4 = Some s5
         \<and> repair_start_node (erase_node s5 ident (vector it5)) ident = Some s'"
      by (simp add: vamana_remove_def split: option.splits) blast
    then obtain s4 and it4 :: vamana_node_t and s5 and it5 :: vamana_node_t where
      s4: "patch_in_neighbors ident sr (approx_in_of s ident sr) s = Some s4"
      and s5: "patch_out_neighbors ident sr (neighbors it4) s4 = Some s5"
      and fin: "repair_start_node (erase_node s5 ident (vector it5)) ident = Some s'"
      by blast
    from rp [OF fin] keys_patch_out_neighbors [OF s5] keys_patch_in_neighbors [OF s4]
    show ?thesis by (simp add: er)
  qed
qed

lemma distinct_keys_preserved:
  assumes "distinct (map fst (node_map s))"
  shows "vamana_insert s ident vec L alpha = Some s' \<Longrightarrow> distinct (map fst (node_map s'))"
    and "vamana_update s ident vec L alpha = Some s' \<Longrightarrow> distinct (map fst (node_map s'))"
    and "vamana_remove s ident = Some s' \<Longrightarrow> distinct (map fst (node_map s'))"
    and "distinct (map fst (node_map (batch_delete s)))"
proof -
  show "distinct (map fst (node_map s'))" if "vamana_insert s ident vec L alpha = Some s'"
    using keys_insert [OF that] assms
    by (auto simp: try_emplace_def map_of_eq_None_iff split: option.splits)
  show "distinct (map fst (node_map s'))" if "vamana_update s ident vec L alpha = Some s'"
    using keys_update [OF that] assms by simp
  show "distinct (map fst (node_map s'))" if "vamana_remove s ident = Some s'"
    using keys_remove [OF that] assms by auto
  show "distinct (map fst (node_map (batch_delete s)))"
    using assms by (simp add: keys_batch_delete)
qed

section \<open>Invariants of every index built by the operations\<close>

lemma reachable_degree_ok: "reachable s \<Longrightarrow> degree_ok s"
proof (induction rule: reachable.induct)
  case (init r m d)
  show ?case by (rule degree_ok_init)
next
  case (insert s ident vec L alpha s')
  then show ?case using degree_ok_insert by blast
next
  case (update s ident vec L alpha s')
  then show ?case using degree_ok_update by blast
next
  case (remove s ident s')
  then show ?case using degree_ok_remove by blast
next
  case (batch s)
  then show ?case by (simp add: degree_ok_batch_delete)
qed

lemma reachable_distinct_keys: "reachable s \<Longrightarrow> distinct (map fst (node_map s))"
proof (induction rule: reachable.induct)
  case (init r m d)
  show ?case by (simp add: Vamana_init_def)
next
  case (insert s ident vec L alpha s')
  then show ?case using distinct_keys_preserved(1) by blast
next
  case (update s ident vec L alpha s')
  then show ?case using distinct_keys_preserved(2) by blast
next
  case (remove s ident s')
  then show ?case using distinct_keys_preserved(3) by blast
next
  case (batch s)
  then show ?case using distinct_keys_preserved(4) by blast
qed

lemma reachable_ex_two_nodes: "reachable ex_two_nodes"
  using reachable.insert [OF reachable.insert [OF reachable.init insert_first] insert_second] .

lemma reachable_ex_after_remove: "reachable ex_after_remove"
  using reachable.remove [OF reachable_ex_two_nodes remove_second] .

section \<open>What validate_graph tests\<close>

text \<open>
  \<open>validate_graph\<close> holds exactly when every neighbor list is free of duplicates and
  at most \<open>R + 1\<close> long.
\<close>

lemma validate_node_iff:
  "finite U \<Longrightarrow> validate_node r U xs
     \<longleftrightarrow> distinct xs \<and> set xs \<inter> U = {} \<and> (xs \<noteq> [] \<longrightarrow> card U + length xs \<le> r + 1)"
proof (induction xs arbitrary: U)
  case Nil
  then show ?case by simp
next
  case (Cons x xs)
  show ?case
  proof (cases "x \<in> U \<or> card U > r")
    case True
    then show ?thesis by auto
  next
    case False
    with Cons.prems have c: "card (insert x U) = card U + 1" by simp
    from Cons.prems have "finite (insert x U)" by simp
    from Cons.IH [OF this] False c show ?thesis by (cases xs) auto
  qed
qed

lemma validate_graph_iff:
  "validate_graph s \<longleftrightarrow>
     list_all (\<lambda>p. distinct (neighbors (snd p)) \<and> length (neighbors (snd p)) \<le> R s + 1) (node_map s)"
  by (auto simp: validate_graph_def validate_node_iff list_all_iff)

section \<open>The first insert\<close>

text \<open>
  The first insert of an id other than 0 into a fresh index leaves the entry point at
  the absent id 0, for every \<open>R\<close>, metric, dimension, vector and beam width.
\<close>

lemma first_insert_start_node:
  assumes "ident \<noteq> 0"
  shows "\<exists>s'. vamana_insert (Vamana_init r m d) ident vec L alpha = Some s'
           \<and> start_node s' = 0 \<and> map_of (node_map s') 0 = None
           \<and> map_of (node_map s') ident = Some \<lparr>neighbors = [], vector = vec\<rparr>"
  using assms
  by (simp add: vamana_insert_def Vamana_init_def StreamingMedoid_init_def try_emplace_def
      try_medoid_compute_def medoid_add_def should_recompute_def greedy_search_def
      robust_prune_def set_neighbors_def update_neighbors_def)

section \<open>The entry point\<close>

text \<open>
  C1. The claim: after any mutation, a non-empty node map contains \<open>start_node\<close>, and
  the first insert into an empty index makes \<open>start_node\<close> the inserted id.
  \<open>try_medoid_compute\<close> is called without \<open>force\<close>, and the countdown of a fresh tracker is
  \<open>10000\<close>, so the first insert does not recompute the entry point: after \<open>insert(5, (1))\<close>
  into the empty index the node map holds id 5 only and \<open>start_node\<close> is still 0.
  \<open>remove\<close>, in contrast, moves an entry point that it erases to a present id.
  (\<open>first_insert_start_node\<close> has the same for every first id other than 0.)
\<close>

theorem C1_first_insert_keeps_start_node_zero:
  "\<exists>s'. vamana_insert (Vamana_init 4 L2 1) 5 [1] 1 (6 / 5) = Some s'
        \<and> node_map s' \<noteq> [] \<and> map_of (node_map s') 5 \<noteq> None
        \<and> start_node s' = 0 \<and> map_of (node_map s') (start_node s') = None"
  by (simp add: eval_defs)

section \<open>Self-loops\<close>

text \<open>
  C2. The claim: no live node lists itself as a neighbor, and every operation keeps it so,
  the edge patching of \<open>remove\<close> included. Step 4 of \<open>remove\<close> patches an in-neighbor \<open>z\<close>
  with \<open>select_top_c(z)\<close>, which skips the removed id but not \<open>z\<close> itself, while step 5
  skips \<open>y == w\<close>. On the index built by \<open>insert(0, (0))\<close> and \<open>insert(1, (1))\<close>, which has
  no self-loop, \<open>remove(1)\<close> leaves node 0 with the neighbor list \<open>[1, 0]\<close>.
\<close>

theorem C2_remove_creates_self_loop:
  "vamana_insert (Vamana_init 4 L2 1) 0 [0] 2 (6 / 5) = Some ex_one_node
   \<and> vamana_insert ex_one_node 1 [1] 2 (6 / 5) = Some ex_two_nodes
   \<and> list_all (\<lambda>p. fst p \<notin> set (neighbors (snd p))) (node_map ex_two_nodes)
   \<and> (\<exists>s'. vamana_remove ex_two_nodes 1 = Some s'
           \<and> map_of (node_map s') 0 = Some \<lparr>neighbors = [1, 0], vector = [0]\<rparr>)"
  using insert_first insert_second remove_second
  by (simp add: ex_two_nodes_def ex_after_remove_def)

section \<open>validate_graph\<close>

text \<open>
  C5. The claim: \<open>validate_graph\<close> returns false whenever some node has a duplicate
  neighbor or more than \<open>R\<close> neighbors, also for exactly \<open>R + 1\<close> distinct neighbors.
  The size test \<open>unique_neighbors.size() > R\<close> runs before the insertion of the current
  neighbor, so a list of \<open>R + 1\<close> distinct ids passes: with \<open>R = 1\<close> and the neighbor list
  \<open>[1, 2]\<close> at node 0 the result is true. (By \<open>validate_graph_iff\<close> the bound that the
  function enforces is \<open>R + 1\<close>.)
\<close>

theorem C5_validate_graph_accepts_R_plus_one:
  "length (neighbors (snd (hd (node_map ex_overfull)))) = R ex_overfull + 1
   \<and> distinct (neighbors (snd (hd (node_map ex_overfull))))
   \<and> validate_graph ex_overfull = True"
  by (simp add: validate_graph_def ex_overfull_def)

section \<open>Absent ids\<close>



section \<open>Prune monotonicity\<close>

text \<open>
  C7. For a candidate list sorted by growing distance and \<open>alpha \<ge> 1\<close>, the neighbors
  that \<open>robust_prune(p, C, 1.0)\<close> gives \<open>p\<close> are among those that
  \<open>robust_prune(p, C, alpha)\<close> gives it. (The two lists are equal, by
  \<open>robust_prune_alpha\<close>.)
\<close>

theorem C7_prune_monotone:
  assumes "sorted (map distance C)" and "1 \<le> alpha"
  shows "set (neighbors_of (fst (robust_prune s p C 1)) p)
           \<subseteq> set (neighbors_of (fst (robust_prune s p C alpha)) p)"
  using robust_prune_alpha [of s p C alpha] by simp

theorem C7_prune_monotone_witness:
  "sorted (map distance [cand 1 1, cand 2 9]) \<and> (1::real) \<le> 5
   \<and> neighbors_of (fst (robust_prune ex_line3 0 [cand 1 1, cand 2 9] 1)) 0 = [1]
   \<and> neighbors_of (fst (robust_prune ex_line3 0 [cand 1 1, cand 2 9] 5)) 0 = [1]
   \<and> set (neighbors_of (fst (robust_prune ex_line3 0 [cand 1 1, cand 2 9] 1)) 0)
        \<subseteq> set (neighbors_of (fst (robust_prune ex_line3 0 [cand 1 1, cand 2 9] 5)) 0)"
proof -
  have h1: "sorted (map distance [cand 1 1, cand 2 9])" by (simp add: cand_def)
  have h2: "(1::real) \<le> 5" by simp
  have "neighbors_of (fst (robust_prune ex_line3 0 [cand 1 1, cand 2 9] 1)) 0 = [1]"
    and "neighbors_of (fst (robust_prune ex_line3 0 [cand 1 1, cand 2 9] 5)) 0 = [1]"
    by (simp_all add: neighbors_of_def eval_defs ex_line_def ex_line3_def map_of_nm_update)
  with h1 h2 C7_prune_monotone [OF h1 h2, of ex_line3 0] show ?thesis by simp
qed

section \<open>The candidate list of the back-edge patch\<close>

text \<open>
  C8, as amended. When the neighbor \<open>v\<close> of the new id is live and has \<open>R\<close> or more
  neighbors, \<open>update_neighbors\<close> calls \<open>robust_prune(v, ncandidates, alpha)\<close> on a list
  that holds the new id with its distance to \<open>v\<close> and is sorted by growing distance
  (nearest first).
\<close>

theorem C8_candidates_sorted_ascending:
  assumes "neighbor_id \<notin> delete_list s"
    and "map_of (node_map s) neighbor_id = Some v"
    and "R s \<le> length (neighbors v)"
  shows "update_neighbors_loop ident vec alpha (neighbor_id # rest) s
           = update_neighbors_loop ident vec alpha rest
               (fst (robust_prune s neighbor_id (ncandidates_of s ident v vec) alpha))
         \<and> sorted (map distance (ncandidates_of s ident v vec))
         \<and> cand ident (compute (metric s) (vector v) vec (dims s)) \<in> set (ncandidates_of s ident v vec)"
  using assms by (simp add: ncandidates_of_def)

theorem C8_candidates_sorted_ascending_witness:
  "0 \<notin> delete_list ex_line
   \<and> map_of (node_map ex_line) 0 = Some \<lparr>neighbors = [2], vector = [0]\<rparr>
   \<and> R ex_line \<le> length (neighbors \<lparr>neighbors = [2], vector = [0]\<rparr>)
   \<and> sorted (map distance (ncandidates_of ex_line 1 \<lparr>neighbors = [2], vector = [0]\<rparr> [1]))"
proof -
  have h1: "0 \<notin> delete_list ex_line" by (simp add: ex_line_def)
  have h2: "map_of (node_map ex_line) 0 = Some \<lparr>neighbors = [2], vector = [0]\<rparr>"
    by (simp add: ex_line_def)
  have h3: "R ex_line \<le> length (neighbors \<lparr>neighbors = [2], vector = [0]\<rparr>)"
    by (simp add: ex_line_def)
  from C8_candidates_sorted_ascending [OF h1 h2 h3, of 1 "[1]"] h1 h2 h3 show ?thesis by simp
qed

text \<open>
  C8, as claimed: the list is sorted by falling distance (worst first). On \<open>ex_line\<close>,
  the back-edge patch of node 0 for the new id 1 builds the candidates
  \<open>(2, 9)\<close> and \<open>(1, 1)\<close> and sorts them to \<open>[(1, 1), (2, 9)]\<close>.
\<close>

theorem C8_candidates_not_descending:
  "0 \<notin> delete_list ex_line
   \<and> map_of (node_map ex_line) 0 = Some \<lparr>neighbors = [2], vector = [0]\<rparr>
   \<and> R ex_line \<le> length (neighbors \<lparr>neighbors = [2], vector = [0]\<rparr>)
   \<and> ncandidates_of ex_line 1 \<lparr>neighbors = [2], vector = [0]\<rparr> [1] = [cand 1 1, cand 2 9]
   \<and> \<not> sorted (rev (map distance (ncandidates_of ex_line 1 \<lparr>neighbors = [2], vector = [0]\<rparr> [1])))"
  by (simp add: eval_defs ex_line_def)

section \<open>The degree bound\<close>

text \<open>
  C4. If every neighbor list is at most \<open>R\<close> long, it is so again after \<open>insert\<close>,
  \<open>update\<close>, \<open>remove\<close> and \<open>batch_delete\<close>. With every id of the index below \<open>2^32 - 1\<close>,
  \<open>remove\<close> returns, \<open>update\<close> returns for a beam width \<open>L > 0\<close>, and so does \<open>insert\<close> of
  an id below \<open>2^32 - 1\<close>. The empty index satisfies the bound (\<open>degree_ok_init\<close>), and so
  does every index built from it (\<open>reachable_degree_ok\<close>).
\<close>

theorem C4_degree_bound:
  assumes "degree_ok s"
  shows "(\<forall>s'. vamana_insert s ident vec L alpha = Some s' \<longrightarrow> degree_ok s')
       \<and> (\<forall>s'. vamana_update s ident vec L alpha = Some s' \<longrightarrow> degree_ok s')
       \<and> (\<forall>s'. vamana_remove s ident = Some s' \<longrightarrow> degree_ok s')
       \<and> degree_ok (batch_delete s)
       \<and> (ids_in_range s \<longrightarrow>
            (\<exists>s'. vamana_remove s ident = Some s' \<and> degree_ok s')
            \<and> (0 < L \<longrightarrow>
                 (\<exists>s'. vamana_update s ident vec L alpha = Some s')
                 \<and> (ident < 4294967295 \<longrightarrow> (\<exists>s'. vamana_insert s ident vec L alpha = Some s'))))"
  using assms degree_ok_insert degree_ok_update degree_ok_remove degree_ok_batch_delete
    vamana_insert_returns [of L s ident vec alpha] vamana_update_returns [of L s ident vec alpha]
    vamana_remove_returns [of s ident]
  by blast

theorem C4_degree_bound_witness:
  "degree_ok ex_two_nodes \<and> ids_in_range ex_two_nodes
   \<and> vamana_remove ex_two_nodes 1 = Some ex_after_remove \<and> degree_ok ex_after_remove
   \<and> degree_ok (batch_delete ex_two_nodes)
   \<and> (\<exists>s'. vamana_insert ex_two_nodes 2 [2] 2 (6 / 5) = Some s' \<and> degree_ok s')"
proof -
  have h: "degree_ok ex_two_nodes" by (simp add: degree_ok_def ex_two_nodes_def)
  have r: "ids_in_range ex_two_nodes" by (simp add: ids_in_range_def ex_two_nodes_def)
  have b: "(2::nat) < 4294967295" and l: "(0::nat) < 2" by simp_all
  from C4_degree_bound [OF h, of 1 "[2]" 2 "6 / 5"] C4_degree_bound [OF h, of 2 "[2]" 2 "6 / 5"]
    remove_second h r b l
  show ?thesis by auto
qed

section \<open>Insert of a present id\<close>

text \<open>
  C10. \<open>insert\<close> of an id that the node map already holds leaves the stored vector of
  that id as it was, while the medoid tracker counts the new vector in. The call returns
  for a beam width \<open>L > 0\<close> when every id of the index is below \<open>2^32 - 1\<close>.
\<close>

theorem C10_insert_keeps_vector:
  assumes "map_of (node_map s) ident = Some n"
  shows "(\<forall>s'. vamana_insert s ident vec L alpha = Some s' \<longrightarrow>
            (\<exists>n'. map_of (node_map s') ident = Some n' \<and> vector n' = vector n)
            \<and> m_n (medoid_tracker s') = m_n (medoid_tracker s) + 1
            \<and> m_sum (medoid_tracker s')
                = map (\<lambda>i. m_sum (medoid_tracker s) ! i + vec ! i)
                    [0..<length (m_sum (medoid_tracker s))])
         \<and> (0 < L \<and> ids_in_range s \<longrightarrow> (\<exists>s'. vamana_insert s ident vec L alpha = Some s'))"
proof (intro conjI allI impI)
  fix s'
  assume ins: "vamana_insert s ident vec L alpha = Some s'"
  have same: "s\<lparr>node_map := try_emplace ident vec (node_map s)\<rparr> = s"
    using assms by (simp add: try_emplace_def)
  from ins obtain s2 nn where
    t: "try_medoid_compute s vec False = Some s2"
    and u: "update_neighbors (fst (robust_prune s2 ident nn alpha)) ident vec alpha = Some s'"
    by (auto simp: vamana_insert_def same split: option.splits)
  from u obtain nd :: vamana_node_t where
    s': "s' = update_neighbors_loop ident vec alpha (neighbors nd) (fst (robust_prune s2 ident nn alpha))"
    by (auto simp: update_neighbors_def split: option.splits)
  have "map_option vector (map_of (node_map s') ident) = map_option vector (map_of (node_map s) ident)"
    unfolding s' by (simp add: update_neighbors_loop_vectors robust_prune_vectors
        try_medoid_compute_frame(1) [OF t])
  with assms show "\<exists>n'. map_of (node_map s') ident = Some n' \<and> vector n' = vector n"
    by auto
  show "m_n (medoid_tracker s') = m_n (medoid_tracker s) + 1"
    unfolding s' using try_medoid_compute_tracker(1) [OF t] by simp
  show "m_sum (medoid_tracker s')
          = map (\<lambda>i. m_sum (medoid_tracker s) ! i + vec ! i) [0..<length (m_sum (medoid_tracker s))]"
    unfolding s' using try_medoid_compute_tracker(2) [OF t] by simp
next
  assume a: "0 < L \<and> ids_in_range s"
  with ids_in_range_key [OF _ assms] have "ident < 4294967295" by simp
  with a show "\<exists>s'. vamana_insert s ident vec L alpha = Some s'"
    by (intro vamana_insert_returns) simp_all
qed

theorem C10_insert_keeps_vector_witness:
  "map_of (node_map ex_two_nodes) 1 = Some \<lparr>neighbors = [0], vector = [1]\<rparr>
   \<and> ids_in_range ex_two_nodes
   \<and> (\<exists>s'. vamana_insert ex_two_nodes 1 [5] 2 (6 / 5) = Some s'
           \<and> map_option vector (map_of (node_map s') 1) = Some [1]
           \<and> m_n (medoid_tracker s') = 3)"
proof -
  have h: "map_of (node_map ex_two_nodes) 1 = Some \<lparr>neighbors = [0], vector = [1]\<rparr>"
    by (simp add: ex_two_nodes_def)
  have r: "ids_in_range ex_two_nodes" by (simp add: ids_in_range_def ex_two_nodes_def)
  have n: "m_n (medoid_tracker ex_two_nodes) = 2" by (simp add: ex_two_nodes_def)
  from C10_insert_keeps_vector [OF h, of "[5]" 2 "6 / 5"] h n r show ?thesis by auto
qed

section \<open>Search results\<close>

text \<open>
  On \<open>ex_two_nodes\<close>: a search with beam width 0 from a present start reads the top of
  the empty result queue; a search with a filter for even ids returns node 0 only.
  On \<open>ex_max_id\<close>: marking the start id \<open>2^32 - 1\<close> reads beyond the flags.
\<close>

lemma greedy_search_zero_beam: "greedy_search ex_two_nodes 0 [1] 0 0 [] None = None"
  by (simp add: eval_defs ex_two_nodes_def)

lemma greedy_search_max_id: "greedy_search ex_max_id 4294967295 [0] 1 1 [] None = None"
  by (simp add: eval_defs ex_max_id_def)

lemma search_even: "greedy_search ex_two_nodes 0 [1] 2 2 [] (Some even) = Some [cand 0 1]"
  by (simp add: eval_defs ex_two_nodes_def)

text \<open>
  C3, as amended. A call of \<open>greedy_search\<close> with an empty result vector that returns
  gives at most \<open>k\<close> results, sorted by growing distance; every result is an id of the
  node map with its metric distance to the query, is not tombstoned, and is accepted by
  the filter when there is one. The call returns when the beam width \<open>L\<close> is at least 1
  and every id of the index is below \<open>2^32 - 1\<close>.
\<close>

theorem C3_greedy_search_results:
  "(\<forall>out. greedy_search s start q k L [] filter_fn = Some out \<longrightarrow>
      length out \<le> k \<and> sorted (map distance out)
      \<and> (\<forall>c \<in> set out.
            cid c \<notin> delete_list s
            \<and> (\<exists>n. map_of (node_map s) (cid c) = Some n
                   \<and> distance c = compute (metric s) (vector n) q (dims s))
            \<and> (\<forall>f. filter_fn = Some f \<longrightarrow> f (cid c))))
   \<and> (0 < L \<and> ids_in_range s \<longrightarrow> (\<exists>out. greedy_search s start q k L [] filter_fn = Some out))"
proof (intro conjI allI impI)
  fix out
  assume g: "greedy_search s start q k L [] filter_fn = Some out"
  from greedy_search_inv [OF g]
  show "length out \<le> k" and "sorted (map distance out)" by auto
  show "\<forall>c \<in> set out.
            cid c \<notin> delete_list s
            \<and> (\<exists>n. map_of (node_map s) (cid c) = Some n
                   \<and> distance c = compute (metric s) (vector n) q (dims s))
            \<and> (\<forall>f. filter_fn = Some f \<longrightarrow> f (cid c))"
  proof
    fix c
    assume "c \<in> set out"
    with greedy_search_inv [OF g] have c: "cand_ok s q c" and r: "result_ok s filter_fn c"
      by (auto simp: list_all_iff)
    from c obtain n where "map_of (node_map s) (cid c) = Some n"
      "distance c = compute (metric s) (vector n) q (dims s)"
      by (auto simp: cand_ok_def split: option.splits)
    with r show "cid c \<notin> delete_list s
            \<and> (\<exists>n. map_of (node_map s) (cid c) = Some n
                   \<and> distance c = compute (metric s) (vector n) q (dims s))
            \<and> (\<forall>f. filter_fn = Some f \<longrightarrow> f (cid c))"
      by (auto simp: result_ok_def)
  qed
next
  assume "0 < L \<and> ids_in_range s"
  then show "\<exists>out. greedy_search s start q k L [] filter_fn = Some out"
    by (intro greedy_search_returns) simp_all
qed

theorem C3_greedy_search_results_witness:
  "ids_in_range ex_two_nodes
   \<and> greedy_search ex_two_nodes 0 [1] 2 2 [] (Some even) = Some [cand 0 1]
   \<and> length [cand 0 1] \<le> (2::nat) \<and> sorted (map distance [cand 0 1])
   \<and> cid (cand 0 1) \<notin> delete_list ex_two_nodes
   \<and> map_of (node_map ex_two_nodes) (cid (cand 0 1)) = Some \<lparr>neighbors = [1], vector = [0]\<rparr>
   \<and> distance (cand 0 1) = compute (metric ex_two_nodes) [0] [1] (dims ex_two_nodes)
   \<and> even (cid (cand 0 1))"
proof -
  have e: "map_of (node_map ex_two_nodes) (cid (cand 0 1)) = Some \<lparr>neighbors = [1], vector = [0]\<rparr>"
    by (simp add: ex_two_nodes_def cand_def)
  have r: "ids_in_range ex_two_nodes" by (simp add: ids_in_range_def ex_two_nodes_def)
  from C3_greedy_search_results [of ex_two_nodes 0 "[1]" 2 2 "Some even"] search_even e r
  show ?thesis by auto
qed

text \<open>
  C3, as claimed: every call gives at most \<open>k\<close> results, sorted, none of them absent
  from the node map. The results are appended to the vector that the caller passes in,
  and a call with an absent start id returns that vector as it is: on \<open>ex_two_nodes\<close>,
  which has no node 9, the call with start 9, \<open>k = 1\<close> and the vector \<open>[(7, 5), (8, 1)]\<close>
  returns these two entries, more than \<open>k\<close>, by falling distance, with ids that the node
  map does not hold.
\<close>

theorem C3_prefilled_result_vector_is_kept:
  "greedy_search ex_two_nodes 9 [1] 1 2 [cand 7 5, cand 8 1] None = Some [cand 7 5, cand 8 1]
   \<and> \<not> length [cand 7 5, cand 8 1] \<le> (1::nat)
   \<and> \<not> sorted (map distance [cand 7 5, cand 8 1])
   \<and> map_of (node_map ex_two_nodes) (cid (cand 7 5)) = None"
  by (simp add: greedy_search_def ex_two_nodes_def cand_def)

section \<open>Self-search\<close>

text \<open>
  The conditions of C6 as amended are needed: an id that is already present keeps its
  old vector, and an id that is tombstoned is left out of the results.
\<close>

lemma self_search_present_id:
  "\<exists>s'. vamana_insert ex_two_nodes 1 [5] 2 (6 / 5) = Some s'
        \<and> greedy_search s' 1 [5] 1 2 [] None = Some [cand 1 16]"
  by (simp add: eval_defs ex_two_nodes_def map_of_nm_update)

lemma self_search_tombstoned_id:
  "\<exists>s'. vamana_insert ex_after_remove 1 [1] 2 (6 / 5) = Some s'
        \<and> greedy_search s' 1 [1] 1 2 [] None = Some [cand 0 1]"
  by (simp add: eval_defs ex_after_remove_def map_of_nm_update)

text \<open>
  C6, as amended. Under the L2 metric, in an index whose ids are all below \<open>2^32 - 1\<close>,
  for an id below \<open>2^32 - 1\<close> that is neither in the node map nor tombstoned, after
  \<open>insert(i, v, L, alpha)\<close> has returned, \<open>greedy_search(i, v, k, L')\<close> with
  \<open>1 \<le> k \<le> L'\<close>, no filter and an empty result vector returns a non-empty list whose
  first result has distance 0; the first result is \<open>i\<close> when no other node of the index
  is at distance 0 from \<open>v\<close> (the order of the result queue among equal distances is left
  open by \<open>std::priority_queue\<close>).
\<close>

theorem C6_self_search_L2:
  assumes "metric s = L2"
    and "ids_in_range s" and "ident < 4294967295"
    and "map_of (node_map s) ident = None"
    and "ident \<notin> delete_list s"
    and "vamana_insert s ident vec L alpha = Some s'"
    and "1 \<le> k" and "k \<le> L'"
  shows "\<exists>r rs. greedy_search s' ident vec k L' [] None = Some (r # rs) \<and> distance r = 0
           \<and> ((\<forall>u m. u \<noteq> ident \<and> map_of (node_map s') u = Some m
                  \<longrightarrow> compute L2 (vector m) vec (dims s') \<noteq> 0) \<longrightarrow> cid r = ident)"
proof -
  note f = insert_fresh [OF assms(4) assms(6)]
  from f(4) obtain n where n: "map_of (node_map s') ident = Some n" "vector n = vec" by blast
  have r: "ids_in_range s'" using ids_in_range_insert [OF assms(2) assms(3) assms(6)] .
  have "metric s' = L2" "ident \<notin> delete_list s'" using f assms by simp_all
  from self_search [OF this(1) n(1) this(2) assms(7) assms(8) r] n(2) show ?thesis by simp
qed

theorem C6_self_search_L2_witness:
  "metric ex_one_node = L2 \<and> ids_in_range ex_one_node \<and> (1::nat) < 4294967295
   \<and> map_of (node_map ex_one_node) 1 = None
   \<and> 1 \<notin> delete_list ex_one_node
   \<and> vamana_insert ex_one_node 1 [1] 2 (6 / 5) = Some ex_two_nodes
   \<and> greedy_search ex_two_nodes 1 [1] 1 2 [] None = Some [cand 1 0]
   \<and> (\<exists>r rs. greedy_search ex_two_nodes 1 [1] 1 2 [] None = Some (r # rs) \<and> distance r = 0)"
proof -
  have h1: "metric ex_one_node = L2" by (simp add: ex_one_node_def)
  have h2: "ids_in_range ex_one_node" by (simp add: ids_in_range_def ex_one_node_def)
  have h3: "(1::nat) < 4294967295" by simp
  have h4: "map_of (node_map ex_one_node) 1 = None" by (simp add: ex_one_node_def)
  have h5: "1 \<notin> delete_list ex_one_node" by (simp add: ex_one_node_def)
  have h7: "(1::nat) \<le> 1" and h8: "(1::nat) \<le> 2" by simp_all
  have e: "greedy_search ex_two_nodes 1 [1] 1 2 [] None = Some [cand 1 0]"
    by (simp add: eval_defs ex_two_nodes_def)
  from C6_self_search_L2 [OF h1 h2 h3 h4 h5 insert_second h7 h8] h1 h2 h3 h4 h5 insert_second e
  show ?thesis by blast
qed

text \<open>
  The bound on the id is needed: the search from the id \<open>2^32 - 1\<close> after its insert
  reads beyond the flags of the visited set.
\<close>

lemma self_search_max_id:
  "vamana_insert (Vamana_init 4 L2 1) 4294967295 [0] 2 (6 / 5) = Some ex_max_id
   \<and> greedy_search ex_max_id 4294967295 [0] 1 1 [] None = None"
  by (simp add: eval_defs ex_max_id_def)

text \<open>
  C6, as claimed: the nearest result has distance 0 under the configured metric. The
  inner-product distance of \<open>v\<close> to itself is \<open>1 - v \<cdot> v\<close>: for \<open>v = (2)\<close> the search
  for \<open>v\<close> from its own id returns that id at distance \<open>-3\<close>.
\<close>

theorem C6_inner_product_distance_not_zero:
  "vamana_insert (Vamana_init 4 INNER_PRODUCT 1) 0 [2] 2 (6 / 5) = Some ex_ip
   \<and> greedy_search ex_ip 0 [2] 1 1 [] None = Some [cand 0 (- 3)]"
  by (simp add: eval_defs ex_ip_def)

end
